theory Spec2Isabelle
  imports Complex_Main "HOL-Library.Multiset" "HOL-Library.Log_Nat"
    "HOL-Library.Product_Lexorder" "HOL-Library.Word"
begin

section \<open>The quantile aggregate of \<^verbatim>\<open>quantile.c\<close>\<close>

text \<open>
  \<^verbatim>\<open>quantile.c\<close> implements a PostgreSQL aggregate: a transition function
  (\<^verbatim>\<open>quantile_append_*\<close>) called once per row, which creates the group state on the
  first call and appends the row's value to a growable array, and a final function
  (\<^verbatim>\<open>quantile_*\<close>) which sorts that array with \<^verbatim>\<open>qsort\<close> and picks one element per
  requested probability. The file has four textual copies of each function, one per
  element type (\<^verbatim>\<open>double\<close>, \<^verbatim>\<open>int32\<close>, \<^verbatim>\<open>int64\<close>, \<^verbatim>\<open>Numeric\<close>); the copies
  differ in the element type, the comparator, the \<^verbatim>\<open>sizeof\<close> of an element and, for the
  scalar final function, in the guard of the index computation.

  Each function is embedded once, with what the copies differ in as parameters, and the
  copies for \<^verbatim>\<open>double\<close>, \<^verbatim>\<open>int32\<close> and \<^verbatim>\<open>int64\<close> are its instances. The \<^verbatim>\<open>Numeric\<close>
  copy has the same text, with an array of pointers and a comparator that calls
  PostgreSQL's \<^verbatim>\<open>numeric_cmp\<close>; that function is not part of this repository, and the
  copy is not instantiated.

  The embedding keeps what the C code does beyond returning a value explicit:
  \<^item> \<^verbatim>\<open>elog(ERROR, ...)\<close> and every read or write the C standard leaves undefined are
    values of the type \<open>error\<close>;
  \<^item> the group state is a struct in a store, addressed by a pointer, and is updated in
    place;
  \<^item> a \<^verbatim>\<open>double\<close> is an IEEE 754 binary64 value, with its NaN, its infinities and its
    two zeros, and the one arithmetic operation of the file, the product
    \<^verbatim>\<open>data->next * data->quantiles[i]\<close>, rounds to nearest, ties to even.
\<close>

subsection \<open>IEEE 754 binary64 values\<close>

text \<open>
  A finite non-zero double is given by its value, a rational number; \<open>Finite 0\<close> is the
  positive zero. Only the representable rationals are doubles (\<open>is_double\<close>): the
  multiples of \<open>2 powi (e - 52)\<close> with \<open>e\<close> the binary exponent of the value, not
  below \<open>-1022\<close>, and of magnitude below \<open>2 ^ 1024\<close>.
\<close>

datatype double = Finite rat | NegZero | PosInf | NegInf | NaN

text \<open>\<open>ilog2 a\<close> is the binary exponent \<open>\<lfloor>log\<^sub>2 a\<rfloor>\<close> of a positive rational.\<close>

definition ilog2 :: "rat \<Rightarrow> int" where
  "ilog2 a = (if 1 \<le> a then bitlen \<lfloor>a\<rfloor> - 1 else - bitlen (\<lceil>1 / a\<rceil> - 1))"

text \<open>The exponent of the unit in the last place of a positive rational: 53 significant
  bits, and the fixed spacing \<open>2 powi (-1074)\<close> of the subnormal range.\<close>

definition ulp_exp :: "rat \<Rightarrow> int" where
  "ulp_exp a = max (ilog2 a) (- 1022) - 52"

definition round_half_even :: "rat \<Rightarrow> int" where
  "round_half_even q =
     (let m = \<lfloor>q\<rfloor>; f = q - of_int m
      in if f < 1 / 2 then m else if 1 / 2 < f then m + 1 else if even m then m else m + 1)"

text \<open>Rounding of a non-zero rational to the nearest double, ties to even; a result of
  magnitude \<open>2 ^ 1024\<close> or more overflows to an infinity, and a result that rounds to
  nothing keeps its sign as a zero.\<close>

definition round_double :: "rat \<Rightarrow> double" where
  "round_double r =
     (let a = \<bar>r\<bar>; u = power_int 2 (ulp_exp a);
          v = of_int (round_half_even (a / u)) * u
      in if power_int 2 1024 \<le> v then (if r < 0 then NegInf else PosInf)
         else if v = 0 then (if r < 0 then NegZero else Finite 0)
         else Finite (if r < 0 then - v else v))"

fun is_double :: "double \<Rightarrow> bool" where
  "is_double (Finite r) =
     (r = 0 \<or>
      (let q = \<bar>r\<bar> / power_int 2 (ulp_exp \<bar>r\<bar>)
       in of_int \<lfloor>q\<rfloor> = q \<and> \<bar>r\<bar> < power_int 2 1024))"
| "is_double d = True"

text \<open>
  The C comparisons \<^verbatim>\<open><\<close>, \<^verbatim>\<open>>\<close>, \<^verbatim>\<open><=\<close>, \<^verbatim>\<open>>=\<close> on doubles: every comparison
  with a NaN is false, and the two zeros are equal. \<open>dkey\<close> orders the values that are
  not NaN.
\<close>

fun dkey :: "double \<Rightarrow> int \<times> rat" where
  "dkey NegInf = (- 1, 0)"
| "dkey (Finite r) = (0, r)"
| "dkey NegZero = (0, 0)"
| "dkey PosInf = (1, 0)"
| "dkey NaN = (2, 0)"

definition dless :: "double \<Rightarrow> double \<Rightarrow> bool" where
  "dless a b = (a \<noteq> NaN \<and> b \<noteq> NaN \<and> dkey a < dkey b)"

definition dle :: "double \<Rightarrow> double \<Rightarrow> bool" where
  "dle a b = (a \<noteq> NaN \<and> b \<noteq> NaN \<and> dkey a \<le> dkey b)"

definition dgreater :: "double \<Rightarrow> double \<Rightarrow> bool" where
  "dgreater a b = dless b a"

definition dge :: "double \<Rightarrow> double \<Rightarrow> bool" where
  "dge a b = dle b a"

text \<open>The C operations the final functions apply to a probability: the conversion of
  the \<^verbatim>\<open>int\<close> count to \<^verbatim>\<open>double\<close> (exact, an \<^verbatim>\<open>int\<close> has 32 bits), the product, \<^verbatim>\<open>ceil\<close>
  and the cast \<^verbatim>\<open>(int)\<close>.\<close>

definition int_to_double :: "int \<Rightarrow> double" where
  "int_to_double n = Finite (of_int n)"

fun dnegative :: "double \<Rightarrow> bool" where
  "dnegative (Finite r) = (r < 0)"
| "dnegative NegZero = True"
| "dnegative NegInf = True"
| "dnegative PosInf = False"
| "dnegative NaN = False"

fun dvalue :: "double \<Rightarrow> rat" where
  "dvalue (Finite r) = r"
| "dvalue d = 0"

definition is_infinite :: "double \<Rightarrow> bool" where
  "is_infinite d = (d = PosInf \<or> d = NegInf)"

definition is_zero :: "double \<Rightarrow> bool" where
  "is_zero d = (d = Finite 0 \<or> d = NegZero)"

definition dmul :: "double \<Rightarrow> double \<Rightarrow> double" where
  "dmul a b =
     (if a = NaN \<or> b = NaN then NaN
      else if is_infinite a \<or> is_infinite b then
        (if is_zero a \<or> is_zero b then NaN
         else if dnegative a = dnegative b then PosInf else NegInf)
      else if is_zero a \<or> is_zero b then
        (if dnegative a = dnegative b then Finite 0 else NegZero)
      else round_double (dvalue a * dvalue b))"

fun dceil :: "double \<Rightarrow> double" where
  "dceil (Finite r) = (if r < 0 \<and> \<lceil>r\<rceil> = 0 then NegZero else Finite (of_int \<lceil>r\<rceil>))"
| "dceil d = d"

fun double_to_int :: "double \<Rightarrow> int option" where
  "double_to_int (Finite r) =
     (let t = (if r < 0 then \<lceil>r\<rceil> else \<lfloor>r\<rfloor>)
      in if - (2 ^ 31) \<le> t \<and> t \<le> 2 ^ 31 - 1 then Some t else None)"
| "double_to_int NegZero = Some 0"
| "double_to_int d = None"

subsection \<open>Errors\<close>

text \<open>
  The first three errors are the ones the code and PostgreSQL's allocator raise with
  \<^verbatim>\<open>elog(ERROR, ...)\<close>, which aborts the statement. The others stand for behaviour the C
  standard leaves undefined: an access outside an array, the read of a cell that was
  never written (\<^verbatim>\<open>palloc\<close> does not clear memory), a NULL or foreign pointer, and the
  cast to \<^verbatim>\<open>int\<close> of a double that no \<^verbatim>\<open>int\<close> holds.
\<close>

datatype error =
    NonAggregateContext string
  | NotSingleDimensional int
  | InvalidAllocSize int
  | OutOfBounds int
  | Uninitialized int
  | NullPointer
  | InvalidPointer nat
  | CastOutOfRange

definition ebind :: "error + 'a \<Rightarrow> ('a \<Rightarrow> error + 'b) \<Rightarrow> error + 'b" where
  "ebind m f = (case m of Inl e \<Rightarrow> Inl e | Inr x \<Rightarrow> f x)"

subsection \<open>Memory\<close>

text \<open>
  \<^verbatim>\<open>SLICE_SIZE\<close> is the constant of the source. \<open>MaxAllocSize\<close> is PostgreSQL's bound
  \<^verbatim>\<open>0x3fffffff\<close> on one \<^verbatim>\<open>palloc\<close> or \<^verbatim>\<open>repalloc\<close> request (\<^verbatim>\<open>memutils.h\<close>, not part
  of this repository): a larger request raises "invalid memory alloc request size".
  Running out of physical memory is not modelled.

  An array obtained from \<^verbatim>\<open>palloc\<close> is a list of cells; a cell that was never written is
  \<open>None\<close>. \<^verbatim>\<open>repalloc\<close> keeps the old cells and adds unwritten ones.
\<close>

definition SLICE_SIZE :: int where
  "SLICE_SIZE = 1024"

definition MaxAllocSize :: int where
  "MaxAllocSize = 1073741823"

definition AllocSizeIsValid :: "int \<Rightarrow> bool" where
  "AllocSizeIsValid sz = (0 \<le> sz \<and> sz \<le> MaxAllocSize)"

definition repalloc :: "'a option list \<Rightarrow> int \<Rightarrow> int \<Rightarrow> error + 'a option list" where
  "repalloc cells elsize n =
     (if AllocSizeIsValid (elsize * n)
      then Inr (take (nat n) cells @ replicate (nat n - length cells) None)
      else Inl (InvalidAllocSize (elsize * n)))"

definition read_cell :: "'a option list \<Rightarrow> int \<Rightarrow> error + 'a" where
  "read_cell cells i =
     (if i < 0 \<or> int (length cells) \<le> i then Inl (OutOfBounds i)
      else case cells ! nat i of None \<Rightarrow> Inl (Uninitialized i) | Some v \<Rightarrow> Inr v)"

definition write_cell :: "'a option list \<Rightarrow> int \<Rightarrow> 'a \<Rightarrow> error + 'a option list" where
  "write_cell cells i v =
     (if i < 0 \<or> int (length cells) \<le> i then Inl (OutOfBounds i)
      else Inr (cells[nat i := Some v]))"

subsection \<open>The group state\<close>

text \<open>
  \<^verbatim>\<open>struct_double\<close>, \<^verbatim>\<open>struct_int32\<close>, \<^verbatim>\<open>struct_int64\<close> and \<^verbatim>\<open>struct_numeric\<close> have the
  same five fields and differ in the element type, the parameter \<open>'a\<close> here. The field
  \<^verbatim>\<open>next\<close> is \<open>next_pos\<close> (\<open>next\<close> is a keyword of Isabelle). The C \<^verbatim>\<open>int\<close> fields are
  integers; \<open>state_ok_int_range\<close> below shows that in a state the code has built they
  stay far inside the 32-bit range, so no \<^verbatim>\<open>int\<close> operation of the code overflows.
  \<open>quantiles\<close> is a pointer: \<open>None\<close> is NULL.
\<close>

record 'a quantile_state =
  nquantiles :: int
  nelements :: int
  next_pos :: int
  quantiles :: "double list option"
  elements :: "'a option list"

text \<open>The store of group states; a pointer to a state is its index.\<close>

type_synonym 'a heap = "'a quantile_state list"

definition state_at :: "'a heap \<Rightarrow> nat \<Rightarrow> error + 'a quantile_state" where
  "state_at h p = (if p < length h then Inr (h ! p) else Inl (InvalidPointer p))"

text \<open>The values a state holds: the first \<open>next_pos\<close> cells of \<open>elements\<close>.\<close>

definition accumulated :: "'a quantile_state \<Rightarrow> 'a list" where
  "accumulated data = map the (take (nat (next_pos data)) (elements data))"

subsection \<open>Comparators and \<^verbatim>\<open>qsort\<close>\<close>

definition double_comparator :: "double \<Rightarrow> double \<Rightarrow> int" where
  "double_comparator af bf = (if dgreater af bf then 1 else 0) - (if dless af bf then 1 else 0)"

definition int32_comparator :: "32 word \<Rightarrow> 32 word \<Rightarrow> int" where
  "int32_comparator af bf = (if sint bf < sint af then 1 else 0) - (if sint af < sint bf then 1 else 0)"

definition int64_comparator :: "64 word \<Rightarrow> 64 word \<Rightarrow> int" where
  "int64_comparator af bf = (if sint bf < sint af then 1 else 0) - (if sint af < sint bf then 1 else 0)"

text \<open>
  \<^verbatim>\<open>qsort\<close> belongs to the C library. The C standard asks of it that the array ends up
  in ascending order of the comparator, provided the comparator orders the elements
  consistently, and leaves the order of elements that compare equal open. The model is
  one algorithm that meets this: insertion from the right end, which keeps elements that
  compare equal in their order of arrival (as the merge sort of glibc does).

  The general theorems below use two facts about it only, \<open>mset_qsort\<close> (the result is a
  permutation of the array) and \<open>map_key_qsort\<close> (the result ascends when the comparator
  agrees with a linear order of keys on the elements). The runs that are evaluated on
  arrays whose elements all compare equal come in pairs that differ in the order of
  arrival alone: a sorting algorithm that decides by comparisons moves the elements of
  both arrays of a pair in the same way, so the results of the pair differ whatever the
  algorithm is.
\<close>

fun insert_cmp :: "('a \<Rightarrow> 'a \<Rightarrow> int) \<Rightarrow> 'a \<Rightarrow> 'a list \<Rightarrow> 'a list" where
  "insert_cmp cmp x [] = [x]"
| "insert_cmp cmp x (y # ys) = (if cmp x y \<le> 0 then x # y # ys else y # insert_cmp cmp x ys)"

definition qsort :: "('a \<Rightarrow> 'a \<Rightarrow> int) \<Rightarrow> 'a list \<Rightarrow> 'a list" where
  "qsort cmp xs = foldr (insert_cmp cmp) xs []"

subsection \<open>Parsing the request\<close>

text \<open>
  The scalar transition functions store the one probability \<^verbatim>\<open>PG_GETARG_FLOAT8(2)\<close>; the
  array ones call \<^verbatim>\<open>array_to_double\<close>. Both give the pointer \<open>quantiles\<close> and the count
  \<open>nquantiles\<close> of the new state.

  An \<^verbatim>\<open>ArrayType\<close> is its number of dimensions, its dimensions and its data, the float8
  items in storage order. \<^verbatim>\<open>ArrayGetNItems\<close> is PostgreSQL's (\<^verbatim>\<open>arrayutils.c\<close>, not part of
  this repository): the product of the dimensions, and 0 when there is no dimension.
\<close>

record array_type =
  arr_ndim :: int
  arr_dims :: "int list"
  arr_data :: "double list"

definition ArrayGetNItems :: "int \<Rightarrow> int list \<Rightarrow> int" where
  "ArrayGetNItems ndim dims = (if ndim \<le> 0 then 0 else prod_list (take (nat ndim) dims))"

text \<open>The loop of \<^verbatim>\<open>array_to_double\<close> that copies item \<open>i\<close> of the data to
  \<^verbatim>\<open>result[idx++]\<close>; \<open>result\<close> is the part of the result array written so far.\<close>

function array_to_double_loop ::
  "double list \<Rightarrow> int \<Rightarrow> int \<Rightarrow> double list \<Rightarrow> error + double list" where
  "array_to_double_loop p nitems i result =
     (if i < nitems then
        (if i < 0 \<or> int (length p) \<le> i then Inl (OutOfBounds i)
         else array_to_double_loop p nitems (i + 1) (result @ [p ! nat i]))
      else Inr result)"
  by pat_completeness auto
termination
  by (relation "measure (\<lambda>(p, nitems, i, result). nat (nitems - i))") auto

definition array_to_double :: "array_type \<Rightarrow> error + double list option \<times> int" where
  "array_to_double v =
     (let ndims = arr_ndim v; dims = arr_dims v; nitems = ArrayGetNItems ndims dims
      in if ndims \<noteq> 1 then Inl (NotSingleDimensional ndims)
         else if nitems = 0 then Inr (None, 0)
         else if \<not> AllocSizeIsValid (nitems * 8) then Inl (InvalidAllocSize (nitems * 8))
         else ebind (array_to_double_loop (arr_data v) nitems 0 [])
                (\<lambda>result. Inr (Some result, int (length result))))"

definition scalar_request :: "double \<Rightarrow> error + double list option \<times> int" where
  "scalar_request q = Inr (Some [q], 1)"

subsection \<open>The transition functions\<close>

text \<open>
  The part of a transition function under \<^verbatim>\<open>if (! PG_ARGISNULL(1))\<close>: grow the array by
  \<^verbatim>\<open>SLICE_SIZE\<close> elements when \<^verbatim>\<open>data->next > data->nelements-1\<close>, then
  \<^verbatim>\<open>data->elements[data->next++] = element\<close>. \<open>elsize\<close> is \<^verbatim>\<open>sizeof\<close> of an element.
\<close>

definition append_element :: "int \<Rightarrow> 'a quantile_state \<Rightarrow> 'a \<Rightarrow> error + 'a quantile_state" where
  "append_element elsize data element =
     ebind
       (if next_pos data > nelements data - 1 then
          ebind (repalloc (elements data) elsize (nelements data + SLICE_SIZE))
            (\<lambda>cells. Inr (data\<lparr>elements := cells, nelements := nelements data + SLICE_SIZE\<rparr>))
        else Inr data)
       (\<lambda>data. ebind (write_cell (elements data) (next_pos data) element)
          (\<lambda>cells. Inr (data\<lparr>elements := cells, next_pos := next_pos data + 1\<rparr>)))"

text \<open>The state the branch \<^verbatim>\<open>if (PG_ARGISNULL(0))\<close> builds. Its three \<^verbatim>\<open>palloc\<close> requests
  (the struct, \<^verbatim>\<open>SLICE_SIZE\<close> elements, one probability) are of a fixed size far below
  \<open>MaxAllocSize\<close>.\<close>

definition new_state :: "double list option \<times> int \<Rightarrow> 'a quantile_state" where
  "new_state req =
     \<lparr>nquantiles = snd req, nelements = SLICE_SIZE, next_pos = 0, quantiles = fst req,
      elements = replicate (nat SLICE_SIZE) None\<rparr>"

text \<open>
  A transition function. Its parameters are what the C function reads of
  \<^verbatim>\<open>PG_FUNCTION_ARGS\<close>: \<open>aggctx\<close> is the answer of \<^verbatim>\<open>AggCheckCallContext\<close>; \<open>arg0\<close> is the
  pointer to the group state, \<open>arg1\<close> the row's value, \<open>None\<close> when
  \<^verbatim>\<open>PG_ARGISNULL\<close>; \<open>arg2\<close> is the request, which the code reads without a NULL test and the
  model takes as present. The result is the pointer \<^verbatim>\<open>PG_RETURN_POINTER(data)\<close> and the
  store. \<open>fname\<close>, \<open>elsize\<close> and \<open>request\<close> are what one copy of the function differs from
  another in.
\<close>

definition quantile_append ::
  "string \<Rightarrow> int \<Rightarrow> ('r \<Rightarrow> error + double list option \<times> int) \<Rightarrow>
   'a heap \<Rightarrow> bool \<Rightarrow> nat option \<Rightarrow> 'a option \<Rightarrow> 'r \<Rightarrow> error + nat \<times> 'a heap" where
  "quantile_append fname elsize request h aggctx arg0 arg1 arg2 =
     (if \<not> aggctx then Inl (NonAggregateContext fname)
      else
        ebind
          (case arg0 of
             None \<Rightarrow> ebind (request arg2) (\<lambda>req. Inr (length h, h @ [new_state req]))
           | Some p \<Rightarrow> Inr (p, h))
          (\<lambda>(data, h).
             case arg1 of
               None \<Rightarrow> Inr (data, h)
             | Some element \<Rightarrow>
                 ebind (state_at h data)
                   (\<lambda>s. ebind (append_element elsize s element)
                      (\<lambda>s'. Inr (data, h[data := s'])))))"

definition quantile_append_double ::
  "double heap \<Rightarrow> bool \<Rightarrow> nat option \<Rightarrow> double option \<Rightarrow> double \<Rightarrow> error + nat \<times> double heap" where
  "quantile_append_double = quantile_append ''quantile_append_double'' 8 scalar_request"

definition quantile_append_double_array ::
  "double heap \<Rightarrow> bool \<Rightarrow> nat option \<Rightarrow> double option \<Rightarrow> array_type \<Rightarrow> error + nat \<times> double heap" where
  "quantile_append_double_array =
     quantile_append ''quantile_append_double_array'' 8 array_to_double"

definition quantile_append_int32 ::
  "32 word heap \<Rightarrow> bool \<Rightarrow> nat option \<Rightarrow> 32 word option \<Rightarrow> double \<Rightarrow> error + nat \<times> 32 word heap" where
  "quantile_append_int32 = quantile_append ''quantile_append_int32'' 4 scalar_request"

definition quantile_append_int32_array ::
  "32 word heap \<Rightarrow> bool \<Rightarrow> nat option \<Rightarrow> 32 word option \<Rightarrow> array_type \<Rightarrow> error + nat \<times> 32 word heap" where
  "quantile_append_int32_array =
     quantile_append ''quantile_append_int32_array'' 4 array_to_double"

definition quantile_append_int64 ::
  "64 word heap \<Rightarrow> bool \<Rightarrow> nat option \<Rightarrow> 64 word option \<Rightarrow> double \<Rightarrow> error + nat \<times> 64 word heap" where
  "quantile_append_int64 = quantile_append ''quantile_append_int64'' 8 scalar_request"

definition quantile_append_int64_array ::
  "64 word heap \<Rightarrow> bool \<Rightarrow> nat option \<Rightarrow> 64 word option \<Rightarrow> array_type \<Rightarrow> error + nat \<times> 64 word heap" where
  "quantile_append_int64_array =
     quantile_append ''quantile_append_int64_array'' 8 array_to_double"

subsection \<open>The final functions\<close>

text \<open>
  \<^verbatim>\<open>qsort(data->elements, data->next, sizeof(...), &comparator)\<close> sorts the first
  \<open>next_pos\<close> cells in place; the comparator reads every one of them.
\<close>

definition sort_elements ::
  "('a \<Rightarrow> 'a \<Rightarrow> int) \<Rightarrow> 'a quantile_state \<Rightarrow> error + 'a quantile_state" where
  "sort_elements cmp data =
     (let n = next_pos data; cells = elements data
      in if n < 0 \<or> int (length cells) < n then Inl (OutOfBounds n)
         else if list_ex (\<lambda>c. c = None) (take (nat n) cells) then Inl (Uninitialized 0)
         else Inr (data\<lparr>elements :=
                map Some (qsort cmp (map the (take (nat n) cells))) @ drop (nat n) cells\<rparr>))"

definition read_quantile :: "'a quantile_state \<Rightarrow> int \<Rightarrow> error + double" where
  "read_quantile data i =
     (case quantiles data of
        None \<Rightarrow> Inl NullPointer
      | Some qs \<Rightarrow> if i < 0 \<or> int (length qs) \<le> i then Inl (OutOfBounds i) else Inr (qs ! nat i))"

text \<open>\<^verbatim>\<open>(int)ceil(data->next * data->quantiles[i]) - 1\<close>.\<close>

definition ceil_index :: "int \<Rightarrow> double \<Rightarrow> error + int" where
  "ceil_index n q =
     (case double_to_int (dceil (dmul (int_to_double n) q)) of
        None \<Rightarrow> Inl CastOutOfRange
      | Some c \<Rightarrow> Inr (c - 1))"

text \<open>
  The scalar final function of the \<^verbatim>\<open>double\<close> copy. It allocates \<^verbatim>\<open>result\<close> (which it
  does not use) and computes the index when \<^verbatim>\<open>quantiles[0]\<close> is above 0 and below 1;
  otherwise the index is 0. \<open>None\<close> in the result is \<^verbatim>\<open>PG_RETURN_NULL()\<close>.
\<close>

definition quantile_double ::
  "double heap \<Rightarrow> bool \<Rightarrow> nat option \<Rightarrow> error + double option \<times> double heap" where
  "quantile_double h aggctx arg0 =
     (if \<not> aggctx then Inl (NonAggregateContext ''quantile_double'')
      else case arg0 of
        None \<Rightarrow> Inr (None, h)
      | Some p \<Rightarrow>
          ebind (state_at h p) (\<lambda>data.
            if \<not> AllocSizeIsValid (nquantiles data * 8)
            then Inl (InvalidAllocSize (nquantiles data * 8))
            else
              ebind (sort_elements double_comparator data) (\<lambda>data.
              ebind (read_quantile data 0) (\<lambda>q.
              ebind (if dgreater q (Finite 0) \<and> dless q (Finite 1)
                     then ceil_index (next_pos data) q else Inr 0) (\<lambda>idx.
              ebind (read_cell (elements data) idx) (\<lambda>v.
              Inr (Some v, h[p := data])))))))"

text \<open>
  The scalar final function of the other copies (\<^verbatim>\<open>quantile_int32\<close>,
  \<^verbatim>\<open>quantile_int64\<close>, \<^verbatim>\<open>quantile_numeric\<close>): no \<^verbatim>\<open>result\<close>, and the index is computed
  whenever \<^verbatim>\<open>quantiles[0] > 0\<close>.
\<close>

definition quantile_scalar ::
  "string \<Rightarrow> ('a \<Rightarrow> 'a \<Rightarrow> int) \<Rightarrow> 'a heap \<Rightarrow> bool \<Rightarrow> nat option \<Rightarrow> error + 'a option \<times> 'a heap" where
  "quantile_scalar fname cmp h aggctx arg0 =
     (if \<not> aggctx then Inl (NonAggregateContext fname)
      else case arg0 of
        None \<Rightarrow> Inr (None, h)
      | Some p \<Rightarrow>
          ebind (state_at h p) (\<lambda>data.
          ebind (sort_elements cmp data) (\<lambda>data.
          ebind (read_quantile data 0) (\<lambda>q.
          ebind (if dgreater q (Finite 0) then ceil_index (next_pos data) q else Inr 0) (\<lambda>idx.
          ebind (read_cell (elements data) idx) (\<lambda>v.
          Inr (Some v, h[p := data])))))))"

definition quantile_int32 ::
  "32 word heap \<Rightarrow> bool \<Rightarrow> nat option \<Rightarrow> error + 32 word option \<times> 32 word heap" where
  "quantile_int32 = quantile_scalar ''quantile_int32'' int32_comparator"

definition quantile_int64 ::
  "64 word heap \<Rightarrow> bool \<Rightarrow> nat option \<Rightarrow> error + 64 word option \<times> 64 word heap" where
  "quantile_int64 = quantile_scalar ''quantile_int64'' int64_comparator"

text \<open>
  The index of one iteration of the array final functions. \<open>idx\<close> is the C variable
  before the iteration: no branch of the \<^verbatim>\<open>if\<close> \<^verbatim>\<open>else if\<close> chain assigns it when the
  probability is a NaN.
\<close>

definition rank_index :: "int \<Rightarrow> double \<Rightarrow> int \<Rightarrow> error + int" where
  "rank_index n q idx =
     (if dgreater q (Finite 0) \<and> dless q (Finite 1) then ceil_index n q
      else if dle q (Finite 0) then Inr 0
      else if dge q (Finite 1) then Inr (n - 1)
      else Inr idx)"

text \<open>The loop \<^verbatim>\<open>for (i = 0; i < data->nquantiles; i++)\<close>; \<open>result\<close> is the part of the
  array \<^verbatim>\<open>result\<close> written so far.\<close>

function quantile_loop ::
  "'a quantile_state \<Rightarrow> int \<Rightarrow> int \<Rightarrow> 'a list \<Rightarrow> error + 'a list" where
  "quantile_loop data i idx result =
     (if i < nquantiles data then
        (case read_quantile data i of
           Inl e \<Rightarrow> Inl e
         | Inr q \<Rightarrow>
            (case rank_index (next_pos data) q idx of
               Inl e \<Rightarrow> Inl e
             | Inr idx' \<Rightarrow>
                (case read_cell (elements data) idx' of
                   Inl e \<Rightarrow> Inl e
                 | Inr v \<Rightarrow> quantile_loop data (i + 1) idx' (result @ [v]))))
      else Inr result)"
  by pat_completeness auto
termination
  by (relation "measure (\<lambda>(data, i, idx, result). nat (nquantiles data - i))") auto

text \<open>
  \<^verbatim>\<open>double_to_array\<close>, \<^verbatim>\<open>int32_to_array\<close>, \<^verbatim>\<open>int64_to_array\<close> and \<^verbatim>\<open>numeric_to_array\<close> hand
  the first \<open>len\<close> values of \<open>d\<close>, in order, to the host's array builder
  (\<^verbatim>\<open>accumArrayResult\<close>, \<^verbatim>\<open>makeArrayResult\<close>, not part of this repository). The model
  stops at the sequence of values handed over. When \<open>len\<close> is 0 no value is handed over
  and \<^verbatim>\<open>makeArrayResult\<close> receives the builder state \<^verbatim>\<open>NULL\<close> it was initialised with;
  what the host makes of that state is outside this file.
\<close>

definition values_to_array :: "'a list \<Rightarrow> int \<Rightarrow> 'a list" where
  "values_to_array d len = take (nat len) d"

definition quantile_array ::
  "string \<Rightarrow> int \<Rightarrow> ('a \<Rightarrow> 'a \<Rightarrow> int) \<Rightarrow> 'a heap \<Rightarrow> bool \<Rightarrow> nat option \<Rightarrow>
   error + 'a list option \<times> 'a heap" where
  "quantile_array fname elsize cmp h aggctx arg0 =
     (if \<not> aggctx then Inl (NonAggregateContext fname)
      else case arg0 of
        None \<Rightarrow> Inr (None, h)
      | Some p \<Rightarrow>
          ebind (state_at h p) (\<lambda>data.
            if \<not> AllocSizeIsValid (nquantiles data * elsize)
            then Inl (InvalidAllocSize (nquantiles data * elsize))
            else
              ebind (sort_elements cmp data) (\<lambda>data.
              ebind (quantile_loop data 0 0 []) (\<lambda>result.
              Inr (Some (values_to_array result (nquantiles data)), h[p := data])))))"

definition quantile_double_array ::
  "double heap \<Rightarrow> bool \<Rightarrow> nat option \<Rightarrow> error + double list option \<times> double heap" where
  "quantile_double_array = quantile_array ''quantile_double_array'' 8 double_comparator"

definition quantile_int32_array ::
  "32 word heap \<Rightarrow> bool \<Rightarrow> nat option \<Rightarrow> error + 32 word list option \<times> 32 word heap" where
  "quantile_int32_array = quantile_array ''quantile_int32_array'' 4 int32_comparator"

definition quantile_int64_array ::
  "64 word heap \<Rightarrow> bool \<Rightarrow> nat option \<Rightarrow> error + 64 word list option \<times> 64 word heap" where
  "quantile_int64_array = quantile_array ''quantile_int64_array'' 8 int64_comparator"

subsection \<open>The host's calls for one group\<close>

text \<open>
  The host calls the transition function once per row of the group, in the order of the
  rows, with the pointer the previous call returned (NULL at the first row), and then the
  final function with the last pointer. A row is its value (\<open>None\<close> for a missing one)
  and the request it carries.
\<close>

fun transitions ::
  "('h \<Rightarrow> bool \<Rightarrow> nat option \<Rightarrow> 'v option \<Rightarrow> 'r \<Rightarrow> error + nat \<times> 'h) \<Rightarrow>
   'h \<Rightarrow> nat option \<Rightarrow> ('v option \<times> 'r) list \<Rightarrow> error + nat option \<times> 'h" where
  "transitions sfunc h st [] = Inr (st, h)"
| "transitions sfunc h st (row # rows) =
     (case sfunc h True st (fst row) (snd row) of
        Inl e \<Rightarrow> Inl e
      | Inr (p, h') \<Rightarrow> transitions sfunc h' (Some p) rows)"

definition aggregate ::
  "('h \<Rightarrow> bool \<Rightarrow> nat option \<Rightarrow> 'v option \<Rightarrow> 'r \<Rightarrow> error + nat \<times> 'h) \<Rightarrow>
   ('h \<Rightarrow> bool \<Rightarrow> nat option \<Rightarrow> error + 'res option \<times> 'h) \<Rightarrow>
   'h \<Rightarrow> ('v option \<times> 'r) list \<Rightarrow> error + 'res option" where
  "aggregate sfunc finalfunc h rows =
     ebind (transitions sfunc h None rows) (\<lambda>(st, h').
     ebind (finalfunc h' True st) (\<lambda>(res, h''). Inr res))"

text \<open>The values of the rows that are not missing, in the order of the rows.\<close>

definition present :: "('v option \<times> 'r) list \<Rightarrow> 'v list" where
  "present rows = map the (filter (\<lambda>v. v \<noteq> None) (map fst rows))"

subsection \<open>The invariant of a group state\<close>

text \<open>
  What the transition functions establish and keep: the count \<open>next_pos\<close> is within the
  capacity \<open>nelements\<close>, which is the length of the array, a positive multiple of
  \<^verbatim>\<open>SLICE_SIZE\<close> and of a size the allocator accepts; the first \<open>next_pos\<close> cells have
  been written; and \<open>nquantiles\<close> is the length of the array \<open>quantiles\<close>, which is NULL
  only when there is no probability.
\<close>

definition request_ok :: "'a quantile_state \<Rightarrow> bool" where
  "request_ok data =
     (nquantiles data = (case quantiles data of None \<Rightarrow> 0 | Some qs \<Rightarrow> int (length qs)) \<and>
      quantiles data \<noteq> Some [] \<and> AllocSizeIsValid (nquantiles data * 8))"

definition state_ok :: "int \<Rightarrow> 'a quantile_state \<Rightarrow> bool" where
  "state_ok elsize data =
     (0 \<le> next_pos data \<and> next_pos data \<le> nelements data \<and>
      int (length (elements data)) = nelements data \<and>
      0 < nelements data \<and> nelements data mod SLICE_SIZE = 0 \<and>
      AllocSizeIsValid (elsize * nelements data) \<and>
      list_all (\<lambda>c. c \<noteq> None) (take (nat (next_pos data)) (elements data)) \<and>
      request_ok data)"

text \<open>The largest capacity the allocator grants for elements of \<open>elsize\<close> bytes:
  134216704 elements of 8 bytes.\<close>

definition max_capacity :: "int \<Rightarrow> int" where
  "max_capacity elsize = SLICE_SIZE * (MaxAllocSize div (elsize * SLICE_SIZE))"

subsection \<open>The nearest-rank rule of the specification\<close>

text \<open>
  The rule of the specification for the zero-based index into the sorted values, for a
  count \<open>n\<close> and a probability \<open>p\<close>: \<open>ceil(n * p) - 1\<close> when \<open>0 < p < 1\<close>, \<open>0\<close> when
  \<open>p \<le> 0\<close>, \<open>n - 1\<close> when \<open>p \<ge> 1\<close>. The product is the double-precision product of the
  count and the probability, as everywhere in the source. The rule says nothing for a
  probability that is a NaN.
\<close>

definition nearest_rank :: "int \<Rightarrow> double \<Rightarrow> int" where
  "nearest_rank n p =
     (if dless (Finite 0) p \<and> dless p (Finite 1)
      then \<lceil>dvalue (dmul (int_to_double n) p)\<rceil> - 1
      else if dle p (Finite 0) then 0 else n - 1)"

text \<open>
  The values the loop of an array final function writes for the probabilities \<open>qs\<close>
  over the sorted values \<open>S\<close>, when the variable \<^verbatim>\<open>idx\<close> holds \<open>idx\<close> before the loop: the
  rule's index for a probability that is not a NaN, and the index of the iteration
  before for one that is.
\<close>

fun rank_values :: "'a list \<Rightarrow> int \<Rightarrow> double list \<Rightarrow> 'a list" where
  "rank_values S idx [] = []"
| "rank_values S idx (q # qs) =
     (let j = (if q = NaN then idx else nearest_rank (int (length S)) q)
      in S ! nat j # rank_values S j qs)"

text \<open>A one-dimensional float8 array with the given items.\<close>

definition float8_array :: "double list \<Rightarrow> array_type" where
  "float8_array qs = \<lparr>arr_ndim = 1, arr_dims = [int (length qs)], arr_data = qs\<rparr>"

section \<open>Properties\<close>

subsection \<open>Rounding\<close>

lemma ilog2_le:
  assumes "0 < a"
  shows "power_int 2 (ilog2 a) \<le> a"
proof (cases "1 \<le> a")
  case True
  then have pos: "0 < \<lfloor>a\<rfloor>" by (simp add: zero_less_floor)
  have b1: "1 \<le> bitlen \<lfloor>a\<rfloor>"
    using pos bitlen_eq_zero_iff[of "\<lfloor>a\<rfloor>"] bitlen_nonneg[of "\<lfloor>a\<rfloor>"] by linarith
  have "(2::int) ^ nat (bitlen \<lfloor>a\<rfloor> - 1) \<le> \<lfloor>a\<rfloor>" using bitlen_bounds[OF pos] by simp
  then have "(of_int ((2::int) ^ nat (bitlen \<lfloor>a\<rfloor> - 1)) :: rat) \<le> of_int \<lfloor>a\<rfloor>"
    by (simp only: of_int_le_iff)
  also have "\<dots> \<le> a" by simp
  finally have "(2::rat) ^ nat (bitlen \<lfloor>a\<rfloor> - 1) \<le> a" by simp
  then show ?thesis using True b1 by (simp add: ilog2_def power_int_def)
next
  case False
  define k where "k = \<lceil>1 / a\<rceil> - 1"
  from False assms have "1 < 1 / a" by (simp add: field_simps)
  then have "1 < \<lceil>1 / a\<rceil>" by (simp add: less_ceiling_iff)
  then have kpos: "0 < k" by (simp add: k_def)
  have "k < 2 ^ nat (bitlen k)" using bitlen_bounds[OF kpos] by simp
  then have "k + 1 \<le> 2 ^ nat (bitlen k)" by simp
  then have "(of_int (k + 1) :: rat) \<le> of_int (2 ^ nat (bitlen k))"
    by (simp only: of_int_le_iff)
  then have "(of_int \<lceil>1 / a\<rceil> :: rat) \<le> 2 ^ nat (bitlen k)" by (simp add: k_def)
  moreover have "1 / a \<le> of_int \<lceil>1 / a\<rceil>" by simp
  ultimately have "1 / a \<le> 2 ^ nat (bitlen k)" by linarith
  then have "1 \<le> 2 ^ nat (bitlen k) * a" using assms by (simp add: field_simps)
  then have "inverse ((2::rat) ^ nat (bitlen k)) \<le> a" by (simp add: field_simps)
  moreover have "0 < bitlen k"
    using kpos bitlen_eq_zero_iff[of k] bitlen_nonneg[of k] by linarith
  ultimately show ?thesis using False
    by (simp add: ilog2_def power_int_def k_def power_inverse power_one_over inverse_eq_divide)
qed

lemma round_half_even_ge: "\<lfloor>q\<rfloor> \<le> round_half_even q"
  by (simp add: round_half_even_def Let_def)

lemma round_half_even_le:
  assumes "q \<le> of_int M"
  shows "round_half_even q \<le> M"
proof (cases "q = of_int M")
  case True
  then show ?thesis by (simp add: round_half_even_def Let_def)
next
  case False
  with assms have "q < of_int M" by simp
  then have "\<lfloor>q\<rfloor> < M" by (simp add: floor_less_iff)
  then show ?thesis by (simp add: round_half_even_def Let_def)
qed

lemma power_int_2_mono: "m \<le> n \<Longrightarrow> power_int (2::rat) m \<le> power_int 2 n"
  by (rule power_int_increasing) simp_all

lemma power_int_2_pos: "0 < power_int (2::rat) n"
  by (simp add: power_int_def)

lemma ulp_exp_le:
  assumes "0 < a" "power_int 2 (- 1074) \<le> a"
  shows "power_int 2 (ulp_exp a) \<le> a"
proof (cases "- 1022 \<le> ilog2 a")
  case True
  then have "ulp_exp a = ilog2 a - 52" by (simp add: ulp_exp_def)
  then have "power_int (2::rat) (ulp_exp a) \<le> power_int 2 (ilog2 a)"
    by (simp add: power_int_2_mono)
  with ilog2_le[OF assms(1)] show ?thesis by linarith
next
  case False
  then have "ulp_exp a = - 1074" by (simp add: ulp_exp_def)
  with assms(2) show ?thesis by simp
qed

lemma ulp_exp_ge: "- 1074 \<le> ulp_exp a"
  by (simp add: ulp_exp_def)

lemma ilog2_less:
  assumes "0 < a" "a < 2 ^ k"
  shows "ilog2 a < int k"
proof (rule ccontr)
  assume "\<not> ilog2 a < int k"
  then have "int k \<le> ilog2 a" by simp
  then have "power_int (2::rat) (int k) \<le> power_int 2 (ilog2 a)" by (rule power_int_2_mono)
  with ilog2_le[OF assms(1)] have "(2::rat) ^ k \<le> a" by simp
  with assms(2) show False by simp
qed

text \<open>A positive double is at least the smallest subnormal number.\<close>

lemma is_double_pos_ge:
  assumes "is_double (Finite p)" "0 < p"
  shows "power_int 2 (- 1074) \<le> p"
proof -
  define u where "u = power_int (2::rat) (ulp_exp p)"
  have upos: "0 < u" by (simp add: u_def power_int_2_pos)
  from assms have int: "of_int \<lfloor>p / u\<rfloor> = p / u" by (simp add: u_def Let_def)
  have "0 < p / u" using assms(2) upos by simp
  with int have "0 < \<lfloor>p / u\<rfloor>" by (metis of_int_0_less_iff)
  then have "1 \<le> p / u" by (simp add: zero_less_floor)
  then have "u \<le> p" using upos by (simp add: field_simps)
  moreover have "power_int (2::rat) (- 1074) \<le> u"
    unfolding u_def using ulp_exp_ge by (rule power_int_2_mono)
  ultimately show ?thesis by linarith
qed

text \<open>Rounding a positive rational that is not below the smallest subnormal number and
  not above an integer \<open>n < 2 ^ 53\<close> gives a positive finite double not above \<open>n\<close>.\<close>

lemma round_double_bounds:
  assumes r: "0 < r" and lo: "power_int 2 (- 1074) \<le> r"
    and hi: "r \<le> of_int n" and n: "n < 2 ^ 53"
  shows "\<exists>v. round_double r = Finite v \<and> 0 < v \<and> v \<le> of_int n"
proof -
  define u where "u = power_int (2::rat) (ulp_exp r)"
  define m where "m = round_half_even (r / u)"
  have upos: "0 < u" by (simp add: u_def power_int_2_pos)
  have "u \<le> r" unfolding u_def using r lo by (rule ulp_exp_le)
  then have "1 \<le> r / u" using upos by (simp add: field_simps)
  then have fl: "1 \<le> \<lfloor>r / u\<rfloor>" by (simp add: le_floor_iff)
  have m1: "1 \<le> m" using fl round_half_even_ge[of "r / u"] unfolding m_def by linarith
  have "r < 2 ^ 53"
  proof -
    have "(of_int n :: rat) < of_int (2 ^ 53)" using n by (simp only: of_int_less_iff)
    with hi show ?thesis by simp
  qed
  with r have "ilog2 r < int 53" by (rule ilog2_less)
  then have e: "ulp_exp r \<le> 0" by (simp add: ulp_exp_def)
  define K where "K = (2::int) ^ nat (- ulp_exp r)"
  have uK: "u = 1 / of_int K"
  proof -
    have "u = power_int 2 (- (- ulp_exp r))" by (simp add: u_def)
    also have "\<dots> = inverse (power_int 2 (- ulp_exp r))" by (rule power_int_minus)
    also have "power_int (2::rat) (- ulp_exp r) = 2 ^ nat (- ulp_exp r)"
      using e by (simp add: power_int_def)
    finally show ?thesis by (simp add: K_def inverse_eq_divide)
  qed
  have Kpos: "0 < K" by (simp add: K_def)
  have "r / u = r * of_int K" by (simp add: uK)
  also have "\<dots> \<le> of_int n * of_int K" using hi Kpos by (simp add: mult_right_mono)
  finally have "r / u \<le> of_int (n * K)" by simp
  then have mle: "m \<le> n * K" unfolding m_def by (rule round_half_even_le)
  define v where "v = of_int m * u"
  have vpos: "0 < v" using m1 upos by (simp add: v_def)
  have "(of_int m :: rat) \<le> of_int (n * K)" using mle by (simp only: of_int_le_iff)
  then have "of_int m * u \<le> of_int (n * K) * u" using upos by (simp add: mult_right_mono)
  also have "\<dots> = of_int n" using Kpos by (simp add: uK)
  finally have vle: "v \<le> of_int n" by (simp add: v_def)
  have "(of_int n :: rat) < of_int (2 ^ 53)" using n by (simp only: of_int_less_iff)
  then have "(of_int n :: rat) < 2 ^ 53" by simp
  also have "(2::rat) ^ 53 \<le> 2 ^ 1024" by (rule power_increasing) simp_all
  finally have "v < 2 ^ 1024" using vle by linarith
  then have nov: "\<not> power_int 2 1024 \<le> v" by simp
  have "round_double r = Finite v"
    using r nov vpos unfolding round_double_def Let_def
    by (simp add: u_def[symmetric] m_def[symmetric] v_def[symmetric] abs_of_pos)
  with vpos vle show ?thesis by blast
qed

subsection \<open>Index computation\<close>

lemma ebind_Inl [simp]: "ebind (Inl e) f = Inl e"
  by (simp add: ebind_def)

lemma ebind_Inr [simp]: "ebind (Inr x) f = f x"
  by (simp add: ebind_def)

lemma dless_0_1_cases:
  assumes "dless (Finite 0) q" "dless q (Finite 1)"
  obtains p where "q = Finite p" "0 < p" "p < 1"
  using assms by (cases q) (auto simp: dless_def)

lemma dmul_count:
  assumes n: "1 \<le> n" "n < 2 ^ 31" and q: "is_double (Finite p)" "0 < p" "p < 1"
  shows "\<exists>v. dmul (int_to_double n) (Finite p) = Finite v \<and> 0 < v \<and> v \<le> of_int n"
proof -
  have npos: "(0::rat) < of_int n" using n(1) by simp
  have n1: "(1::rat) \<le> of_int n" using n(1) by simp
  have r: "0 < of_int n * p" using npos q(2) by simp
  have "p \<le> of_int n * p" using n1 q(2) by simp
  with is_double_pos_ge[OF q(1,2)] have lo: "power_int 2 (- 1074) \<le> of_int n * p" by linarith
  have hi: "of_int n * p \<le> of_int n" using npos q(3) by simp
  have "n < 2 ^ 53" using n(2) by simp
  from round_double_bounds[OF r lo hi this] obtain v where
    "round_double (of_int n * p) = Finite v" "0 < v" "v \<le> of_int n" by blast
  moreover have "dmul (int_to_double n) (Finite p) = round_double (of_int n * p)"
    using n(1) q(2) by (simp add: dmul_def int_to_double_def is_infinite_def is_zero_def)
  ultimately show ?thesis by auto
qed

lemma ceil_index_in_range:
  assumes n: "1 \<le> n" "n < 2 ^ 31" and q: "is_double q" "dless (Finite 0) q" "dless q (Finite 1)"
  shows "ceil_index n q = Inr (nearest_rank n q) \<and> 0 \<le> nearest_rank n q \<and> nearest_rank n q < n"
proof -
  from q(2,3) obtain p where p: "q = Finite p" "0 < p" "p < 1" by (rule dless_0_1_cases)
  from dmul_count[OF n] q(1) p obtain v where
    v: "dmul (int_to_double n) q = Finite v" "0 < v" "v \<le> of_int n" by auto
  define c where "c = \<lceil>v\<rceil>"
  have c1: "1 \<le> c" using v(2) by (simp add: c_def le_ceiling_iff)
  have c2: "c \<le> n" using v(3) by (simp add: c_def ceiling_le_iff)
  have "dceil (Finite v) = Finite (of_int c)" using v(2) by (simp add: c_def)
  moreover have "double_to_int (Finite (of_int c)) = Some c"
    using c1 c2 n(2) by (simp add: Let_def)
  ultimately have "ceil_index n q = Inr (c - 1)" by (simp add: ceil_index_def v(1))
  moreover have "nearest_rank n q = c - 1"
    using q(2,3) by (simp add: nearest_rank_def v(1) c_def)
  ultimately show ?thesis using c1 c2 by simp
qed

lemma not_between_cases:
  assumes "q \<noteq> NaN" "\<not> (dless (Finite 0) q \<and> dless q (Finite 1))" "\<not> dle q (Finite 0)"
  shows "dge q (Finite 1)"
  using assms by (cases q) (auto simp: dless_def dle_def dge_def)

lemma rank_index_nearest:
  assumes n: "1 \<le> n" "n < 2 ^ 31" and q: "is_double q" "q \<noteq> NaN"
  shows "rank_index n q idx = Inr (nearest_rank n q) \<and> 0 \<le> nearest_rank n q \<and> nearest_rank n q < n"
proof (cases "dless (Finite 0) q \<and> dless q (Finite 1)")
  case True
  with ceil_index_in_range[OF n q(1)] show ?thesis
    by (simp add: rank_index_def dgreater_def)
next
  case False
  show ?thesis
  proof (cases "dle q (Finite 0)")
    case True
    with False n show ?thesis by (auto simp: rank_index_def nearest_rank_def dgreater_def)
  next
    case le: False
    from not_between_cases[OF q(2) False le] False le n show ?thesis
      by (auto simp: rank_index_def nearest_rank_def dgreater_def)
  qed
qed

subsection \<open>Appending one element\<close>

lemma take_update_snoc:
  assumes "k < length xs"
  shows "take (Suc k) (xs[k := y]) = take k xs @ [y]"
  using assms by (simp add: take_Suc_conv_app_nth)

lemma append_element_room:
  assumes ok: "state_ok elsize data" and room: "next_pos data < nelements data"
  shows "append_element elsize data v =
           Inr (data\<lparr>elements := (elements data)[nat (next_pos data) := Some v],
                     next_pos := next_pos data + 1\<rparr>)"
  using ok room by (simp add: append_element_def state_ok_def write_cell_def)

lemma append_element_grow:
  assumes ok: "state_ok elsize data" and full: "next_pos data = nelements data"
    and valid: "AllocSizeIsValid (elsize * (nelements data + SLICE_SIZE))"
  shows "append_element elsize data v =
           Inr (data\<lparr>elements := (elements data @ replicate (nat SLICE_SIZE) None)[nat (next_pos data) := Some v],
                     nelements := nelements data + SLICE_SIZE,
                     next_pos := next_pos data + 1\<rparr>)"
proof -
  have len: "int (length (elements data)) = nelements data" using ok by (simp add: state_ok_def)
  have pos: "0 \<le> nelements data" using ok by (simp add: state_ok_def)
  have "nat (nelements data + SLICE_SIZE) = length (elements data) + nat SLICE_SIZE"
    using len by (simp add: SLICE_SIZE_def)
  then have "repalloc (elements data) elsize (nelements data + SLICE_SIZE) =
      Inr (elements data @ replicate (nat SLICE_SIZE) None)"
    using valid by (simp add: repalloc_def)
  then show ?thesis
    using full len by (simp add: append_element_def write_cell_def SLICE_SIZE_def)
qed

lemma append_element_fail:
  assumes ok: "state_ok elsize data" and full: "next_pos data = nelements data"
    and invalid: "\<not> AllocSizeIsValid (elsize * (nelements data + SLICE_SIZE))"
  shows "append_element elsize data v = Inl (InvalidAllocSize (elsize * (nelements data + SLICE_SIZE)))"
  using full invalid by (simp add: append_element_def repalloc_def)

lemma accumulated_snoc:
  assumes "0 \<le> n" "nat n < length cells"
  shows "map the (take (nat (n + 1)) (cells[nat n := Some v])) = map the (take (nat n) cells) @ [v]"
proof -
  have "nat (n + 1) = Suc (nat n)" using assms(1) by simp
  then show ?thesis using assms(2) by (simp add: take_update_snoc)
qed

lemma list_all_snoc_written:
  assumes "0 \<le> n" "nat n < length cells" "list_all (\<lambda>c. c \<noteq> None) (take (nat n) cells)"
  shows "list_all (\<lambda>c. c \<noteq> None) (take (nat (n + 1)) (cells[nat n := Some v]))"
proof -
  have "nat (n + 1) = Suc (nat n)" using assms(1) by simp
  then show ?thesis using assms(2,3) by (simp add: take_update_snoc)
qed

lemma request_ok_frame [simp]:
  "request_ok (data\<lparr>elements := e\<rparr>) = request_ok data"
  "request_ok (data\<lparr>next_pos := n\<rparr>) = request_ok data"
  "request_ok (data\<lparr>nelements := m\<rparr>) = request_ok data"
  by (simp_all add: request_ok_def)

lemma append_element_props:
  assumes ok: "state_ok elsize data" and res: "append_element elsize data v = Inr data'"
  shows "state_ok elsize data' \<and> accumulated data' = accumulated data @ [v] \<and>
         next_pos data' = next_pos data + 1 \<and>
         nelements data' = (if next_pos data = nelements data then nelements data + SLICE_SIZE else nelements data) \<and>
         quantiles data' = quantiles data \<and> nquantiles data' = nquantiles data \<and>
         elements data' ! nat (next_pos data) = Some v"
proof (cases "next_pos data < nelements data")
  case True
  have k: "nat (next_pos data) < length (elements data)" "0 \<le> next_pos data"
    using ok True by (auto simp: state_ok_def)
  have d: "data' = data\<lparr>elements := (elements data)[nat (next_pos data) := Some v],
                     next_pos := next_pos data + 1\<rparr>"
    using append_element_room[OF ok True, of v] res by simp
  have "state_ok elsize data'"
    using ok True list_all_snoc_written[OF k(2) k(1), of v]
    by (simp add: d state_ok_def)
  moreover have "accumulated data' = accumulated data @ [v]"
    using accumulated_snoc[OF k(2) k(1)] by (simp add: d accumulated_def)
  ultimately show ?thesis using True k by (simp add: d)
next
  case False
  with ok have full: "next_pos data = nelements data" by (simp add: state_ok_def)
  have valid: "AllocSizeIsValid (elsize * (nelements data + SLICE_SIZE))"
    using append_element_fail[OF ok full, of v] res by auto
  define cells where "cells = elements data @ replicate (nat SLICE_SIZE) None"
  have len: "int (length (elements data)) = nelements data" using ok by (simp add: state_ok_def)
  have k: "nat (next_pos data) < length cells" "0 \<le> next_pos data"
    using ok full len by (auto simp: cells_def SLICE_SIZE_def state_ok_def)
  have tk: "take (nat (next_pos data)) cells = take (nat (next_pos data)) (elements data)"
    using full len by (simp add: cells_def)
  have d: "data' = data\<lparr>elements := cells[nat (next_pos data) := Some v],
                     nelements := nelements data + SLICE_SIZE,
                     next_pos := next_pos data + 1\<rparr>"
    using append_element_grow[OF ok full valid, of v] res by (simp add: cells_def)
  have all: "list_all (\<lambda>c. c \<noteq> None) (take (nat (next_pos data)) cells)"
    using ok by (simp add: tk state_ok_def)
  have "state_ok elsize data'"
    using ok full valid list_all_snoc_written[OF k(2) k(1) all, of v] len
    by (simp add: d state_ok_def cells_def SLICE_SIZE_def)
  moreover have "accumulated data' = accumulated data @ [v]"
    using accumulated_snoc[OF k(2) k(1), of v] by (simp add: d accumulated_def tk)
  ultimately show ?thesis using full k by (simp add: d)
qed

lemma state_ok_next_length:
  assumes "state_ok elsize data"
  shows "int (length (accumulated data)) = next_pos data"
  using assms by (auto simp: state_ok_def accumulated_def min_def)

lemma capacity_room:
  assumes ok: "state_ok elsize data" and el: "0 < elsize"
    and full: "next_pos data = nelements data"
    and cap: "next_pos data + 1 \<le> max_capacity elsize"
  shows "AllocSizeIsValid (elsize * (nelements data + SLICE_SIZE))"
proof -
  define K where "K = MaxAllocSize div (elsize * SLICE_SIZE)"
  define k where "k = nelements data div SLICE_SIZE"
  have ne: "nelements data = SLICE_SIZE * k" "0 < nelements data"
    using ok by (auto simp: state_ok_def k_def)
  have "SLICE_SIZE * k + 1 \<le> SLICE_SIZE * K"
    using cap full ne by (simp add: max_capacity_def K_def)
  then have "k < K" by (simp add: SLICE_SIZE_def)
  then have "k + 1 \<le> K" by simp
  then have "elsize * SLICE_SIZE * (k + 1) \<le> elsize * SLICE_SIZE * K"
    using el by (simp add: SLICE_SIZE_def)
  also have "\<dots> \<le> MaxAllocSize"
  proof -
    have "0 < elsize * SLICE_SIZE" using el by (simp add: SLICE_SIZE_def)
    then have "MaxAllocSize div (elsize * SLICE_SIZE) * (elsize * SLICE_SIZE) \<le> MaxAllocSize"
      using div_mult_mod_eq[of MaxAllocSize "elsize * SLICE_SIZE"]
        pos_mod_sign[of "elsize * SLICE_SIZE" MaxAllocSize] by linarith
    then show ?thesis by (simp add: K_def mult.commute)
  qed
  finally have "elsize * (nelements data + SLICE_SIZE) \<le> MaxAllocSize"
    by (simp add: ne algebra_simps)
  moreover have "0 \<le> elsize * (nelements data + SLICE_SIZE)"
    using el ne by (simp add: SLICE_SIZE_def)
  ultimately show ?thesis by (simp add: AllocSizeIsValid_def)
qed

lemma append_element_succeeds:
  assumes ok: "state_ok elsize data" and el: "0 < elsize"
    and cap: "next_pos data + 1 \<le> max_capacity elsize"
  shows "\<exists>data'. append_element elsize data v = Inr data'"
proof (cases "next_pos data < nelements data")
  case True
  then show ?thesis using append_element_room[OF ok True] by simp
next
  case False
  with ok have full: "next_pos data = nelements data" by (simp add: state_ok_def)
  from append_element_grow[OF ok full capacity_room[OF ok el full cap]] show ?thesis by simp
qed

subsection \<open>The transition functions\<close>

lemma quantile_append_no_context:
  "quantile_append fname elsize request h False arg0 arg1 arg2 = Inl (NonAggregateContext fname)"
  by (simp add: quantile_append_def)

lemma quantile_append_missing:
  "quantile_append fname elsize request h True (Some p) None arg2 = Inr (p, h)"
  by (simp add: quantile_append_def)

lemma quantile_append_present:
  "quantile_append fname elsize request h True (Some p) (Some v) arg2 =
     ebind (state_at h p) (\<lambda>s. ebind (append_element elsize s v) (\<lambda>s'. Inr (p, h[p := s'])))"
  by (simp add: quantile_append_def)

lemma quantile_append_create:
  "quantile_append fname elsize request h True None arg1 arg2 =
     ebind (request arg2) (\<lambda>req.
       case arg1 of
         None \<Rightarrow> Inr (length h, h @ [new_state req])
       | Some v \<Rightarrow> ebind (append_element elsize (new_state req) v) (\<lambda>s'. Inr (length h, h @ [s'])))"
  by (cases "request arg2"; cases arg1) (simp_all add: quantile_append_def state_at_def)

lemma new_state_ok:
  assumes "0 < elsize" "elsize * SLICE_SIZE \<le> MaxAllocSize" "request_ok (new_state req :: 'a quantile_state)"
  shows "state_ok elsize (new_state req :: 'a quantile_state)"
  using assms by (simp add: state_ok_def new_state_def SLICE_SIZE_def AllocSizeIsValid_def request_ok_def)

lemma scalar_request_ok:
  assumes "scalar_request q = Inr req"
  shows "request_ok (new_state req)"
  using assms by (auto simp: scalar_request_def request_ok_def new_state_def AllocSizeIsValid_def MaxAllocSize_def)

lemma array_to_double_loop_result:
  assumes "array_to_double_loop p nitems i result = Inr r" "0 \<le> i" "i \<le> nitems"
  shows "r = result @ take (nat (nitems - i)) (drop (nat i) p) \<and>
         (i < nitems \<longrightarrow> nitems \<le> int (length p))"
  using assms
proof (induction p nitems i result rule: array_to_double_loop.induct)
  case (1 p nitems i result)
  show ?case
  proof (cases "i < nitems")
    case True
    with "1.prems" have inb: "\<not> (i < 0 \<or> int (length p) \<le> i)"
      by (auto simp: array_to_double_loop.simps[of p nitems i result])
    with True "1.prems" have rec: "array_to_double_loop p nitems (i + 1) (result @ [p ! nat i]) = Inr r"
      by (simp add: array_to_double_loop.simps[of p nitems i result])
    from "1.IH"[OF True inb rec] "1.prems" True
    have ih: "r = (result @ [p ! nat i]) @ take (nat (nitems - (i + 1))) (drop (nat (i + 1)) p)"
      "i + 1 < nitems \<longrightarrow> nitems \<le> int (length p)" by auto
    have d: "nitems \<le> int (length p)" using ih(2) inb True by (cases "i + 1 < nitems") auto
    have a: "nat (nitems - i) = Suc (nat (nitems - (i + 1)))" using True by simp
    have b: "nat (i + 1) = Suc (nat i)" using "1.prems" by simp
    have c: "nat i < length p" using inb "1.prems" by simp
    have "take (nat (nitems - i)) (drop (nat i) p) = p ! nat i # take (nat (nitems - (i + 1))) (drop (nat (i + 1)) p)"
      unfolding a b using c by (simp add: Cons_nth_drop_Suc[symmetric])
    with ih(1) d show ?thesis by simp
  next
    case False
    with "1.prems" show ?thesis
      by (simp add: array_to_double_loop.simps[of p nitems i result])
  qed
qed

lemma array_to_double_ok:
  assumes "array_to_double a = Inr req"
  shows "request_ok (new_state req)"
proof -
  define nitems where "nitems = ArrayGetNItems (arr_ndim a) (arr_dims a)"
  show ?thesis
  proof (cases "nitems = 0")
    case True
    with assms show ?thesis
      by (auto simp: array_to_double_def Let_def nitems_def request_ok_def new_state_def
            AllocSizeIsValid_def MaxAllocSize_def split: if_splits)
  next
    case False
    from assms False have valid: "AllocSizeIsValid (nitems * 8)"
      by (auto simp: array_to_double_def Let_def nitems_def split: if_splits)
    from assms False valid obtain r where
      r: "array_to_double_loop (arr_data a) nitems 0 [] = Inr r" "req = (Some r, int (length r))"
      by (cases "array_to_double_loop (arr_data a) nitems 0 []")
         (auto simp: array_to_double_def Let_def nitems_def split: if_splits)
    have pos: "0 < nitems" using valid False by (simp add: AllocSizeIsValid_def)
    from array_to_double_loop_result[OF r(1)] pos
    have "r = take (nat nitems) (arr_data a)" "nitems \<le> int (length (arr_data a))" by auto
    then have len: "int (length r) = nitems" using pos by simp
    with pos valid show ?thesis by (auto simp: r(2) request_ok_def new_state_def)
  qed
qed

lemma present_Nil [simp]: "present [] = []"
  by (simp add: present_def)

lemma present_Cons_None [simp]: "present ((None, a) # rows) = present rows"
  by (simp add: present_def)

lemma present_Cons_Some [simp]: "present ((Some v, a) # rows) = v # present rows"
  by (simp add: present_def)

lemma quantile_append_existing_result:
  assumes p: "p < length h" and ok: "state_ok elsize (h ! p)"
    and res: "quantile_append fname elsize request h True (Some p) arg1 arg2 = Inr (p', h')"
  shows "p' = p \<and> length h' = length h \<and> state_ok elsize (h' ! p) \<and>
         accumulated (h' ! p) = accumulated (h ! p) @ (case arg1 of None \<Rightarrow> [] | Some v \<Rightarrow> [v]) \<and>
         quantiles (h' ! p) = quantiles (h ! p) \<and> nquantiles (h' ! p) = nquantiles (h ! p) \<and>
         (\<forall>q. q \<noteq> p \<longrightarrow> h' ! q = h ! q)"
proof (cases arg1)
  case None
  with res ok show ?thesis by (simp add: quantile_append_missing)
next
  case (Some v)
  with res p obtain s' where s': "append_element elsize (h ! p) v = Inr s'" "p' = p" "h' = h[p := s']"
    by (cases "append_element elsize (h ! p) v") (auto simp: quantile_append_present state_at_def)
  from append_element_props[OF ok s'(1)] p show ?thesis by (simp add: s' Some)
qed

lemma transitions_existing_result:
  assumes "p < length h" "state_ok elsize (h ! p)"
    and "transitions (quantile_append fname elsize request) h (Some p) rows = Inr (st, h')"
  shows "st = Some p \<and> length h' = length h \<and> state_ok elsize (h' ! p) \<and>
         accumulated (h' ! p) = accumulated (h ! p) @ present rows \<and>
         quantiles (h' ! p) = quantiles (h ! p) \<and> nquantiles (h' ! p) = nquantiles (h ! p) \<and>
         (\<forall>q. q \<noteq> p \<longrightarrow> h' ! q = h ! q)"
  using assms
proof (induction rows arbitrary: h)
  case Nil
  then show ?case by simp
next
  case (Cons row rows)
  obtain v a where row: "row = (v, a)" by (cases row)
  from Cons.prems(3) obtain p1 h1 where
    step: "quantile_append fname elsize request h True (Some p) v a = Inr (p1, h1)"
    and rest: "transitions (quantile_append fname elsize request) h1 (Some p1) rows = Inr (st, h')"
    by (auto simp: row split: sum.splits)
  from quantile_append_existing_result[OF Cons.prems(1,2) step]
  have s: "p1 = p" "length h1 = length h" "state_ok elsize (h1 ! p)"
    "accumulated (h1 ! p) = accumulated (h ! p) @ (case v of None \<Rightarrow> [] | Some v \<Rightarrow> [v])"
    "quantiles (h1 ! p) = quantiles (h ! p)" "nquantiles (h1 ! p) = nquantiles (h ! p)"
    "\<forall>q. q \<noteq> p \<longrightarrow> h1 ! q = h ! q" by auto
  have p1: "p < length h1" using s(2) Cons.prems(1) by simp
  from Cons.IH[OF p1 s(3) rest[unfolded s(1)]] s show ?case
    by (cases v) (simp_all add: row)
qed

lemma quantile_append_existing_succeeds:
  assumes p: "p < length h" and ok: "state_ok elsize (h ! p)" and el: "0 < elsize"
    and cap: "next_pos (h ! p) + (case arg1 of None \<Rightarrow> 0 | Some v \<Rightarrow> 1) \<le> max_capacity elsize"
  shows "\<exists>h'. quantile_append fname elsize request h True (Some p) arg1 arg2 = Inr (p, h')"
proof (cases arg1)
  case None
  then show ?thesis by (simp add: quantile_append_missing)
next
  case (Some v)
  with cap have "next_pos (h ! p) + 1 \<le> max_capacity elsize" by simp
  from append_element_succeeds[OF ok el this, of v] p show ?thesis
    by (auto simp: Some quantile_append_present state_at_def)
qed

lemma transitions_existing_succeeds:
  assumes "p < length h" "state_ok elsize (h ! p)" "0 < elsize"
    and "next_pos (h ! p) + int (length (present rows)) \<le> max_capacity elsize"
  shows "\<exists>h'. transitions (quantile_append fname elsize request) h (Some p) rows = Inr (Some p, h')"
  using assms
proof (induction rows arbitrary: h)
  case Nil
  then show ?case by simp
next
  case (Cons row rows)
  obtain v a where row: "row = (v, a)" by (cases row)
  have cap1: "next_pos (h ! p) + (case v of None \<Rightarrow> 0 | Some v \<Rightarrow> 1) \<le> max_capacity elsize"
    using Cons.prems(4) by (cases v) (simp_all add: row)
  from quantile_append_existing_succeeds[OF Cons.prems(1,2,3) cap1,
      where fname = fname and request = request and ?arg2.0 = a] obtain h1 where
    step: "quantile_append fname elsize request h True (Some p) v a = Inr (p, h1)" by blast
  from quantile_append_existing_result[OF Cons.prems(1,2) step]
  have s: "length h1 = length h" "state_ok elsize (h1 ! p)"
    "accumulated (h1 ! p) = accumulated (h ! p) @ (case v of None \<Rightarrow> [] | Some v \<Rightarrow> [v])" by auto
  have p1: "p < length h1" using s(1) Cons.prems(1) by simp
  have n1: "next_pos (h1 ! p) = next_pos (h ! p) + (case v of None \<Rightarrow> 0 | Some v \<Rightarrow> 1)"
    using state_ok_next_length[OF s(2)] state_ok_next_length[OF Cons.prems(2)] s(3)
    by (cases v) simp_all
  have cap2: "next_pos (h1 ! p) + int (length (present rows)) \<le> max_capacity elsize"
    using Cons.prems(4) n1 by (cases v) (simp_all add: row)
  from Cons.IH[OF p1 s(2) Cons.prems(3) cap2] step show ?case by (simp add: row)
qed

lemma new_state_fields [simp]:
  "next_pos (new_state req) = 0" "nelements (new_state req) = SLICE_SIZE"
  "quantiles (new_state req) = fst req" "nquantiles (new_state req) = snd req"
  "accumulated (new_state req) = []"
  by (simp_all add: new_state_def accumulated_def)

lemma quantile_append_create_result:
  assumes el: "0 < elsize" "elsize * SLICE_SIZE \<le> MaxAllocSize"
    and rq: "\<forall>a req. request a = Inr req \<longrightarrow> request_ok (new_state req :: 'a quantile_state)"
    and res: "quantile_append fname elsize request (h :: 'a heap) True None arg1 arg2 = Inr (p', h')"
  shows "\<exists>req s. request arg2 = Inr req \<and> p' = length h \<and> h' = h @ [s] \<and>
           state_ok elsize s \<and>
           accumulated s = (case arg1 of None \<Rightarrow> [] | Some v \<Rightarrow> [v]) \<and>
           quantiles s = fst req \<and> nquantiles s = snd req"
proof -
  from res obtain req where req: "request arg2 = Inr req"
    by (cases "request arg2") (auto simp: quantile_append_create)
  have ok0: "state_ok elsize (new_state req :: 'a quantile_state)"
    using el rq[rule_format, OF req] by (rule new_state_ok)
  show ?thesis
  proof (cases arg1)
    case None
    with res req ok0 show ?thesis by (auto simp: quantile_append_create)
  next
    case (Some v)
    with res req obtain s where s: "append_element elsize (new_state req) v = Inr s"
      "p' = length h" "h' = h @ [s]"
      by (cases "append_element elsize (new_state req :: 'a quantile_state) v")
         (auto simp: quantile_append_create)
    from append_element_props[OF ok0 s(1)] req s(2,3) show ?thesis by (auto simp: Some)
  qed
qed

lemma quantile_append_create_succeeds:
  assumes el: "0 < elsize" "elsize * SLICE_SIZE \<le> MaxAllocSize"
    and rq: "\<forall>a req. request a = Inr req \<longrightarrow> request_ok (new_state req :: 'a quantile_state)"
    and req: "request arg2 = Inr req"
  shows "\<exists>h'. quantile_append fname elsize request (h :: 'a heap) True None arg1 arg2 = Inr (length h, h')"
proof (cases arg1)
  case None
  with req show ?thesis by (simp add: quantile_append_create)
next
  case (Some v)
  have ok0: "state_ok elsize (new_state req :: 'a quantile_state)"
    using el rq[rule_format, OF req] by (rule new_state_ok)
  have "next_pos (new_state req :: 'a quantile_state) < nelements (new_state req :: 'a quantile_state)"
    by (simp add: SLICE_SIZE_def)
  from append_element_room[OF ok0 this, of v] req show ?thesis
    by (simp add: Some quantile_append_create)
qed

lemma transitions_result:
  assumes el: "0 < elsize" "elsize * SLICE_SIZE \<le> MaxAllocSize"
    and rq: "\<forall>a req. request a = Inr req \<longrightarrow> request_ok (new_state req :: 'a quantile_state)"
    and res: "transitions (quantile_append fname elsize request) (h :: 'a heap) None (row # rows) = Inr (st, h')"
  shows "\<exists>req s. request (snd row) = Inr req \<and> st = Some (length h) \<and> h' = h @ [s] \<and>
           state_ok elsize s \<and> accumulated s = present (row # rows) \<and>
           quantiles s = fst req \<and> nquantiles s = snd req"
proof -
  obtain v a where row: "row = (v, a)" by (cases row)
  from res obtain p1 h1 where
    step: "quantile_append fname elsize request h True None v a = Inr (p1, h1)"
    and rest: "transitions (quantile_append fname elsize request) h1 (Some p1) rows = Inr (st, h')"
    by (auto simp: row split: sum.splits)
  from quantile_append_create_result[OF el rq step] obtain req s1 where
    c: "request a = Inr req" "p1 = length h" "h1 = h @ [s1]" "state_ok elsize s1"
    "accumulated s1 = (case v of None \<Rightarrow> [] | Some v \<Rightarrow> [v])"
    "quantiles s1 = fst req" "nquantiles s1 = snd req" by blast
  have p: "length h < length h1" "state_ok elsize (h1 ! length h)" using c by simp_all
  from transitions_existing_result[OF p rest[unfolded c(2)]]
  have r: "st = Some (length h)" "length h' = length h1" "state_ok elsize (h' ! length h)"
    "accumulated (h' ! length h) = accumulated (h1 ! length h) @ present rows"
    "quantiles (h' ! length h) = quantiles (h1 ! length h)"
    "nquantiles (h' ! length h) = nquantiles (h1 ! length h)"
    "\<forall>q. q \<noteq> length h \<longrightarrow> h' ! q = h1 ! q" by auto
  have "h' = h @ [h' ! length h]"
  proof (rule nth_equalityI)
    show "length h' = length (h @ [h' ! length h])" using r(2) c(3) by simp
  next
    fix i assume "i < length h'"
    then show "h' ! i = (h @ [h' ! length h]) ! i"
      using r(7) c(3) by (cases "i = length h") (auto simp: nth_append)
  qed
  moreover have "accumulated (h' ! length h) = present (row # rows)"
    using r(4) c(3,5) by (cases v) (simp_all add: row)
  ultimately show ?thesis using c r by (auto simp: row)
qed

lemma transitions_succeeds:
  assumes el: "0 < elsize" "elsize * SLICE_SIZE \<le> MaxAllocSize"
    and rq: "\<forall>a req. request a = Inr req \<longrightarrow> request_ok (new_state req :: 'a quantile_state)"
    and req: "request (snd row) = Inr req"
    and cap: "int (length (present (row # rows))) \<le> max_capacity elsize"
  shows "\<exists>h'. transitions (quantile_append fname elsize request) (h :: 'a heap) None (row # rows) =
           Inr (Some (length h), h')"
proof -
  obtain v a where row: "row = (v, a)" by (cases row)
  from quantile_append_create_succeeds[OF el rq, where ?arg2.0 = a and req = req and fname = fname and h = h and ?arg1.0 = v] req obtain h1 where
    step: "quantile_append fname elsize request h True None v a = Inr (length h, h1)"
    by (auto simp: row)
  from quantile_append_create_result[OF el rq step] obtain s1 where
    c: "h1 = h @ [s1]" "state_ok elsize s1"
    "accumulated s1 = (case v of None \<Rightarrow> [] | Some v \<Rightarrow> [v])" by blast
  have p: "length h < length h1" "state_ok elsize (h1 ! length h)" using c by simp_all
  have "next_pos (h1 ! length h) = int (length (case v of None \<Rightarrow> [] | Some v \<Rightarrow> [v]))"
    using state_ok_next_length[OF c(2)] c(1,3) by simp
  then have cap1: "next_pos (h1 ! length h) + int (length (present rows)) \<le> max_capacity elsize"
    using cap by (cases v) (simp_all add: row)
  from transitions_existing_succeeds[OF p el(1) cap1, of fname request] step
  show ?thesis by (simp add: row)
qed

subsection \<open>The double copy\<close>

lemma elsize_8: "(0::int) < 8" "8 * SLICE_SIZE \<le> MaxAllocSize"
  by (simp_all add: SLICE_SIZE_def MaxAllocSize_def)

lemma scalar_request_ok_all:
  "\<forall>a req. scalar_request a = Inr req \<longrightarrow> request_ok (new_state req :: 'a quantile_state)"
  using scalar_request_ok by blast

lemma array_to_double_ok_all:
  "\<forall>a req. array_to_double a = Inr req \<longrightarrow> request_ok (new_state req :: 'a quantile_state)"
  using array_to_double_ok by blast

text \<open>
  Claim C4. After the transition calls for the rows of one group, the state holds exactly
  the values of the rows that are not missing, in the order of the rows, and \<open>next_pos\<close> is
  their number; a missing value is neither written nor counted, and growth beyond the
  first slab of 1024 elements loses nothing. This holds for the scalar and the array
  transition function whenever the calls return; the calls of the scalar function do
  return unless the values outnumber the largest array the allocator grants
  (\<open>max_capacity 8\<close>, 134216704 doubles).
\<close>

theorem append_accumulates_present_values:
  "(transitions quantile_append_double h None (row # rows) = Inr (st, h') \<longrightarrow>
      (\<exists>s. st = Some (length h) \<and> h' = h @ [s] \<and> accumulated s = present (row # rows) \<and>
           next_pos s = int (length (present (row # rows))))) \<and>
   (transitions quantile_append_double_array h None (row' # rows') = Inr (st, h') \<longrightarrow>
      (\<exists>s. st = Some (length h) \<and> h' = h @ [s] \<and> accumulated s = present (row' # rows') \<and>
           next_pos s = int (length (present (row' # rows'))))) \<and>
   (int (length (present (row # rows))) \<le> max_capacity 8 \<longrightarrow>
      (\<exists>s. transitions quantile_append_double h None (row # rows) = Inr (Some (length h), h @ [s])))"
proof (intro conjI impI)
  assume res: "transitions quantile_append_double h None (row # rows) = Inr (st, h')"
  from transitions_result[OF elsize_8 scalar_request_ok_all res[unfolded quantile_append_double_def]]
  obtain s where s: "st = Some (length h)" "h' = h @ [s]" "state_ok 8 s"
    "accumulated s = present (row # rows)" by blast
  from state_ok_next_length[OF s(3)] s
  show "\<exists>s. st = Some (length h) \<and> h' = h @ [s] \<and> accumulated s = present (row # rows) \<and>
           next_pos s = int (length (present (row # rows)))" by auto
next
  assume res: "transitions quantile_append_double_array h None (row' # rows') = Inr (st, h')"
  from transitions_result[OF elsize_8 array_to_double_ok_all res[unfolded quantile_append_double_array_def]]
  obtain s where s: "st = Some (length h)" "h' = h @ [s]" "state_ok 8 s"
    "accumulated s = present (row' # rows')" by blast
  from state_ok_next_length[OF s(3)] s
  show "\<exists>s. st = Some (length h) \<and> h' = h @ [s] \<and> accumulated s = present (row' # rows') \<and>
           next_pos s = int (length (present (row' # rows')))" by auto
next
  assume cap: "int (length (present (row # rows))) \<le> max_capacity 8"
  have req: "scalar_request (snd row) = Inr (Some [snd row], 1)" by (simp add: scalar_request_def)
  from transitions_succeeds[OF elsize_8 scalar_request_ok_all req cap, of "''quantile_append_double''" h]
  obtain h' where h': "transitions quantile_append_double h None (row # rows) = Inr (Some (length h), h')"
    by (auto simp: quantile_append_double_def)
  from transitions_result[OF elsize_8 scalar_request_ok_all h'[unfolded quantile_append_double_def]]
  obtain s where "h' = h @ [s]" by blast
  with h' show "\<exists>s. transitions quantile_append_double h None (row # rows) = Inr (Some (length h), h @ [s])"
    by auto
qed

theorem append_accumulates_present_values_witness:
  "\<exists>s. transitions quantile_append_double [] None
          [(Some (Finite 3), Finite (1 / 2)), (None, Finite (1 / 2)), (Some (Finite 1), Finite (1 / 2)),
           (None, Finite (1 / 2)), (Some (Finite 2), Finite (1 / 2))] = Inr (Some 0, [s]) \<and>
       accumulated s = [Finite 3, Finite 1, Finite 2] \<and> next_pos s = 3"
proof -
  let ?row = "(Some (Finite 3), Finite (1 / 2))"
  let ?rows = "[(None, Finite (1 / 2)), (Some (Finite 1), Finite (1 / 2)),
           (None, Finite (1 / 2)), (Some (Finite 2), Finite (1 / 2))]"
  have cap: "int (length (present (?row # ?rows))) \<le> max_capacity 8"
    by (simp add: max_capacity_def SLICE_SIZE_def MaxAllocSize_def)
  note T = append_accumulates_present_values[where h = "[]" and row = ?row and rows = ?rows]
  have "\<exists>s. transitions quantile_append_double [] None (?row # ?rows) =
      Inr (Some (length ([] :: double heap)), [] @ [s])"
    by (rule T[THEN conjunct2, THEN conjunct2, THEN mp, OF cap])
  then obtain s where s: "transitions quantile_append_double [] None (?row # ?rows) = Inr (Some 0, [s])"
    by (auto simp only: list.size append_Nil)
  have "\<exists>s'. Some 0 = Some (length ([] :: double heap)) \<and> [s] = [] @ [s'] \<and>
      accumulated s' = present (?row # ?rows) \<and>
      next_pos s' = int (length (present (?row # ?rows)))"
    by (rule T[THEN conjunct1, THEN mp, OF s])
  then have "accumulated s = present (?row # ?rows) \<and> next_pos s = int (length (present (?row # ?rows)))"
    by (auto simp only: append_Nil list.inject)
  then have "accumulated s = [Finite 3, Finite 1, Finite 2] \<and> next_pos s = 3" by simp
  with s show ?thesis by blast
qed

lemma append_element_frame:
  assumes "append_element elsize data v = Inr data'"
  shows "quantiles data' = quantiles data \<and> nquantiles data' = nquantiles data"
  using assms
  by (auto simp: append_element_def repalloc_def write_cell_def ebind_def
      split: if_splits sum.splits)

lemma quantile_append_frame:
  assumes "quantile_append fname elsize request h True (Some p) arg1 arg2 = Inr (p', h')"
  shows "p' = p \<and> length h' = length h \<and> quantiles (h' ! p) = quantiles (h ! p) \<and>
         nquantiles (h' ! p) = nquantiles (h ! p) \<and> (\<forall>q. q \<noteq> p \<longrightarrow> h' ! q = h ! q)"
proof (cases arg1)
  case None
  with assms show ?thesis by (simp add: quantile_append_missing)
next
  case (Some v)
  with assms have p: "p < length h"
    by (auto simp: quantile_append_present state_at_def split: if_splits)
  with assms Some obtain s' where s': "append_element elsize (h ! p) v = Inr s'" "p' = p" "h' = h[p := s']"
    by (cases "append_element elsize (h ! p) v") (auto simp: quantile_append_present state_at_def)
  from append_element_frame[OF s'(1)] p show ?thesis by (simp add: s')
qed

lemma quantile_append_request_unused:
  "quantile_append fname elsize request h aggctx (Some p) arg1 arg2 =
   quantile_append fname elsize request h aggctx (Some p) arg1 arg2'"
  by (simp add: quantile_append_def)

text \<open>
  Claim C8. The request argument is read only by the call that creates the state. A
  transition call that receives a state returns the pointer it was given, leaves
  \<open>quantiles\<close> and \<open>nquantiles\<close> of that state and every other state of the store as they
  were, and its result is the same whatever request the call carries.
\<close>

theorem request_consumed_only_at_creation:
  "(quantile_append_double h True (Some p) arg1 arg2 = Inr (p', h') \<longrightarrow>
      p' = p \<and> length h' = length h \<and> quantiles (h' ! p) = quantiles (h ! p) \<and>
      nquantiles (h' ! p) = nquantiles (h ! p) \<and> (\<forall>q. q \<noteq> p \<longrightarrow> h' ! q = h ! q)) \<and>
   (quantile_append_double_array h True (Some p) arg1 arr = Inr (p', h') \<longrightarrow>
      p' = p \<and> length h' = length h \<and> quantiles (h' ! p) = quantiles (h ! p) \<and>
      nquantiles (h' ! p) = nquantiles (h ! p) \<and> (\<forall>q. q \<noteq> p \<longrightarrow> h' ! q = h ! q)) \<and>
   quantile_append_double h True (Some p) arg1 arg2 =
     quantile_append_double h True (Some p) arg1 other \<and>
   quantile_append_double_array h True (Some p) arg1 arr =
     quantile_append_double_array h True (Some p) arg1 other_arr"
proof -
  have a: "quantile_append_double h True (Some p) arg1 arg2 = Inr (p', h') \<longrightarrow>
      p' = p \<and> length h' = length h \<and> quantiles (h' ! p) = quantiles (h ! p) \<and>
      nquantiles (h' ! p) = nquantiles (h ! p) \<and> (\<forall>q. q \<noteq> p \<longrightarrow> h' ! q = h ! q)"
    unfolding quantile_append_double_def by (rule impI) (rule quantile_append_frame)
  have b: "quantile_append_double_array h True (Some p) arg1 arr = Inr (p', h') \<longrightarrow>
      p' = p \<and> length h' = length h \<and> quantiles (h' ! p) = quantiles (h ! p) \<and>
      nquantiles (h' ! p) = nquantiles (h ! p) \<and> (\<forall>q. q \<noteq> p \<longrightarrow> h' ! q = h ! q)"
    unfolding quantile_append_double_array_def by (rule impI) (rule quantile_append_frame)
  have c: "quantile_append_double h True (Some p) arg1 arg2 =
     quantile_append_double h True (Some p) arg1 other"
    unfolding quantile_append_double_def by (rule quantile_append_request_unused)
  have d: "quantile_append_double_array h True (Some p) arg1 arr =
     quantile_append_double_array h True (Some p) arg1 other_arr"
    unfolding quantile_append_double_array_def by (rule quantile_append_request_unused)
  from a b c d show ?thesis by (intro conjI)
qed

theorem request_consumed_only_at_creation_witness:
  "quantile_append_double_array
     [\<lparr>nquantiles = 2, nelements = 1024, next_pos = 1,
       quantiles = Some [Finite (1 / 4), Finite (3 / 4)],
       elements = Some (Finite 5) # replicate 1023 None\<rparr>]
     True (Some 0) (Some (Finite 7)) (float8_array [Finite (1 / 2)]) =
   Inr (0, [\<lparr>nquantiles = 2, nelements = 1024, next_pos = 2,
       quantiles = Some [Finite (1 / 4), Finite (3 / 4)],
       elements = Some (Finite 5) # Some (Finite 7) # replicate 1022 None\<rparr>]) \<and>
   quantiles (\<lparr>nquantiles = 2, nelements = 1024, next_pos = 2,
       quantiles = Some [Finite (1 / 4), Finite (3 / 4)],
       elements = Some (Finite 5) # Some (Finite 7) # replicate 1022 None\<rparr> :: double quantile_state) =
     Some [Finite (1 / 4), Finite (3 / 4)]"
proof -
  let ?h = "[\<lparr>nquantiles = 2, nelements = 1024, next_pos = 1,
       quantiles = Some [Finite (1 / 4), Finite (3 / 4)],
       elements = Some (Finite 5) # replicate 1023 None\<rparr>] :: double heap"
  let ?h' = "[\<lparr>nquantiles = 2, nelements = 1024, next_pos = 2,
       quantiles = Some [Finite (1 / 4), Finite (3 / 4)],
       elements = Some (Finite 5) # Some (Finite 7) # replicate 1022 None\<rparr>] :: double heap"
  have e: "quantile_append_double_array ?h True (Some 0) (Some (Finite 7)) (float8_array [Finite (1 / 2)]) =
      Inr (0, ?h')" by code_simp
  from request_consumed_only_at_creation[where h = ?h and p = 0 and p' = 0 and h' = ?h'
      and ?arg1.0 = "Some (Finite 7)" and arr = "float8_array [Finite (1 / 2)]",
      THEN conjunct2, THEN conjunct1, THEN mp, OF e]
  have "quantiles (?h' ! 0) = quantiles (?h ! 0)" by blast
  then have "quantiles (?h' ! 0) = Some [Finite (1 / 4), Finite (3 / 4)]" by simp
  with e show ?thesis by simp
qed

text \<open>
  Claim C7. A transition call on a state that satisfies the invariant \<open>state_ok\<close> returns
  a state that satisfies it: the count does not exceed the capacity, and the capacity
  does not decrease. When the call carries a value and the array is full
  (\<open>next_pos = nelements\<close>) the capacity grows by exactly \<^verbatim>\<open>SLICE_SIZE\<close>, otherwise it stays;
  the value is written at position \<open>next_pos\<close>, and \<open>next_pos\<close> grows by one. The creating
  call establishes the invariant, and a call on a state that satisfies it returns unless
  the array is full and the allocator refuses the larger one.
\<close>

theorem append_preserves_invariants:
  "(p < length h \<and> state_ok 8 (h ! p) \<and>
    quantile_append_double h True (Some p) arg1 arg2 = Inr (p', h') \<longrightarrow>
      state_ok 8 (h' ! p) \<and> next_pos (h' ! p) \<le> nelements (h' ! p) \<and>
      nelements (h ! p) \<le> nelements (h' ! p) \<and>
      (case arg1 of
         None \<Rightarrow> h' = h
       | Some v \<Rightarrow>
           nelements (h' ! p) =
             (if next_pos (h ! p) = nelements (h ! p) then nelements (h ! p) + SLICE_SIZE
              else nelements (h ! p)) \<and>
           elements (h' ! p) ! nat (next_pos (h ! p)) = Some v \<and>
           next_pos (h' ! p) = next_pos (h ! p) + 1 \<and>
           accumulated (h' ! p) = accumulated (h ! p) @ [v])) \<and>
   (quantile_append_double h True None arg1 arg2 = Inr (p', h') \<longrightarrow> state_ok 8 (h' ! p')) \<and>
   (p < length h \<and> state_ok 8 (h ! p) \<and>
    (next_pos (h ! p) < nelements (h ! p) \<or>
     AllocSizeIsValid (8 * (nelements (h ! p) + SLICE_SIZE))) \<longrightarrow>
      (\<exists>h'. quantile_append_double h True (Some p) arg1 arg2 = Inr (p, h')))"
proof -
  have a: "p < length h \<and> state_ok 8 (h ! p) \<and>
    quantile_append_double h True (Some p) arg1 arg2 = Inr (p', h') \<longrightarrow>
      state_ok 8 (h' ! p) \<and> next_pos (h' ! p) \<le> nelements (h' ! p) \<and>
      nelements (h ! p) \<le> nelements (h' ! p) \<and>
      (case arg1 of
         None \<Rightarrow> h' = h
       | Some v \<Rightarrow>
           nelements (h' ! p) =
             (if next_pos (h ! p) = nelements (h ! p) then nelements (h ! p) + SLICE_SIZE
              else nelements (h ! p)) \<and>
           elements (h' ! p) ! nat (next_pos (h ! p)) = Some v \<and>
           next_pos (h' ! p) = next_pos (h ! p) + 1 \<and>
           accumulated (h' ! p) = accumulated (h ! p) @ [v])"
  proof
    assume as: "p < length h \<and> state_ok 8 (h ! p) \<and>
      quantile_append_double h True (Some p) arg1 arg2 = Inr (p', h')"
    then have p: "p < length h" and ok: "state_ok 8 (h ! p)"
      and res: "quantile_append ''quantile_append_double'' 8 scalar_request h True (Some p) arg1 arg2 = Inr (p', h')"
      by (simp_all add: quantile_append_double_def)
    show "state_ok 8 (h' ! p) \<and> next_pos (h' ! p) \<le> nelements (h' ! p) \<and>
      nelements (h ! p) \<le> nelements (h' ! p) \<and>
      (case arg1 of
         None \<Rightarrow> h' = h
       | Some v \<Rightarrow>
           nelements (h' ! p) =
             (if next_pos (h ! p) = nelements (h ! p) then nelements (h ! p) + SLICE_SIZE
              else nelements (h ! p)) \<and>
           elements (h' ! p) ! nat (next_pos (h ! p)) = Some v \<and>
           next_pos (h' ! p) = next_pos (h ! p) + 1 \<and>
           accumulated (h' ! p) = accumulated (h ! p) @ [v])"
    proof (cases arg1)
      case None
      with res ok show ?thesis by (simp add: quantile_append_missing state_ok_def)
    next
      case (Some v)
      with res p obtain s' where s': "append_element 8 (h ! p) v = Inr s'" "h' = h[p := s']"
        by (cases "append_element 8 (h ! p) v") (auto simp: quantile_append_present state_at_def)
      from append_element_props[OF ok s'(1)] have pr: "state_ok 8 s'"
        "accumulated s' = accumulated (h ! p) @ [v]" "next_pos s' = next_pos (h ! p) + 1"
        "nelements s' = (if next_pos (h ! p) = nelements (h ! p) then nelements (h ! p) + SLICE_SIZE
              else nelements (h ! p))"
        "elements s' ! nat (next_pos (h ! p)) = Some v" by simp_all
      have "next_pos s' \<le> nelements s'" using pr(1) by (simp add: state_ok_def)
      moreover have "nelements (h ! p) \<le> nelements s'" using pr(4) by (simp add: SLICE_SIZE_def)
      ultimately show ?thesis using pr p by (simp add: s'(2) Some)
    qed
  qed
  have b: "quantile_append_double h True None arg1 arg2 = Inr (p', h') \<longrightarrow> state_ok 8 (h' ! p')"
  proof
    assume "quantile_append_double h True None arg1 arg2 = Inr (p', h')"
    then have "quantile_append ''quantile_append_double'' 8 scalar_request h True None arg1 arg2 = Inr (p', h')"
      by (simp add: quantile_append_double_def)
    from quantile_append_create_result[OF elsize_8 scalar_request_ok_all this]
    show "state_ok 8 (h' ! p')" by auto
  qed
  have c: "p < length h \<and> state_ok 8 (h ! p) \<and>
    (next_pos (h ! p) < nelements (h ! p) \<or>
     AllocSizeIsValid (8 * (nelements (h ! p) + SLICE_SIZE))) \<longrightarrow>
      (\<exists>h'. quantile_append_double h True (Some p) arg1 arg2 = Inr (p, h'))"
  proof
    assume as: "p < length h \<and> state_ok 8 (h ! p) \<and>
      (next_pos (h ! p) < nelements (h ! p) \<or>
       AllocSizeIsValid (8 * (nelements (h ! p) + SLICE_SIZE)))"
    then have p: "p < length h" and ok: "state_ok 8 (h ! p)" by simp_all
    show "\<exists>h'. quantile_append_double h True (Some p) arg1 arg2 = Inr (p, h')"
    proof (cases arg1)
      case None
      then show ?thesis by (simp add: quantile_append_double_def quantile_append_missing)
    next
      case (Some v)
      have "\<exists>s'. append_element 8 (h ! p) v = Inr s'"
      proof (cases "next_pos (h ! p) < nelements (h ! p)")
        case True
        from append_element_room[OF ok True] show ?thesis by simp
      next
        case False
        with ok have full: "next_pos (h ! p) = nelements (h ! p)" by (simp add: state_ok_def)
        from as False have "AllocSizeIsValid (8 * (nelements (h ! p) + SLICE_SIZE))" by simp
        from append_element_grow[OF ok full this] show ?thesis by simp
      qed
      with p show ?thesis
        by (auto simp: Some quantile_append_double_def quantile_append_present state_at_def)
    qed
  qed
  from a b c show ?thesis by (intro conjI)
qed

theorem append_preserves_invariants_witness:
  "state_ok 8 (\<lparr>nquantiles = 1, nelements = 1024, next_pos = 1024, quantiles = Some [Finite (1 / 2)],
       elements = replicate 1024 (Some (Finite 1))\<rparr> :: double quantile_state) \<and>
   quantile_append_double
     [\<lparr>nquantiles = 1, nelements = 1024, next_pos = 1024, quantiles = Some [Finite (1 / 2)],
       elements = replicate 1024 (Some (Finite 1))\<rparr>]
     True (Some 0) (Some (Finite 2)) (Finite (1 / 2)) =
   Inr (0, [\<lparr>nquantiles = 1, nelements = 2048, next_pos = 1025, quantiles = Some [Finite (1 / 2)],
       elements = replicate 1024 (Some (Finite 1)) @ Some (Finite 2) # replicate 1023 None\<rparr>]) \<and>
   state_ok 8 (\<lparr>nquantiles = 1, nelements = 2048, next_pos = 1025, quantiles = Some [Finite (1 / 2)],
       elements = replicate 1024 (Some (Finite 1)) @ Some (Finite 2) # replicate 1023 None\<rparr>
       :: double quantile_state)"
proof -
  let ?s = "\<lparr>nquantiles = 1, nelements = 1024, next_pos = 1024, quantiles = Some [Finite (1 / 2)],
       elements = replicate 1024 (Some (Finite 1))\<rparr> :: double quantile_state"
  let ?s' = "\<lparr>nquantiles = 1, nelements = 2048, next_pos = 1025, quantiles = Some [Finite (1 / 2)],
       elements = replicate 1024 (Some (Finite 1)) @ Some (Finite 2) # replicate 1023 None\<rparr>
       :: double quantile_state"
  have ok: "state_ok 8 ?s" by code_simp
  have e: "quantile_append_double [?s] True (Some 0) (Some (Finite 2)) (Finite (1 / 2)) = Inr (0, [?s'])"
    by code_simp
  have h: "0 < length [?s] \<and> state_ok 8 ([?s] ! 0) \<and>
    quantile_append_double [?s] True (Some 0) (Some (Finite 2)) (Finite (1 / 2)) = Inr (0, [?s'])"
    using ok e by simp
  from append_preserves_invariants[where h = "[?s]" and p = 0 and p' = 0 and h' = "[?s']"
      and ?arg1.0 = "Some (Finite 2)" and ?arg2.0 = "Finite (1 / 2)", THEN conjunct1, THEN mp, OF h]
  have "state_ok 8 ([?s'] ! 0)" by (rule conjunct1)
  then have "state_ok 8 ?s'" by simp
  with ok e show ?thesis by (intro conjI)
qed

subsection \<open>Boundary probabilities and empty groups\<close>

text \<open>
  Claim C2 says that every final function returns the largest value for a probability of
  1 or more. The scalar final functions do not: for the values 10, 20, 30, 40 and the
  probability 1, \<^verbatim>\<open>quantile_double\<close> takes the branch \<^verbatim>\<open>idx = 0\<close> and returns 10, where
  \<^verbatim>\<open>quantile_double_array\<close> returns 40; and \<^verbatim>\<open>quantile_int32\<close> with the probability 2 over
  two values computes the index 3 and reads a cell of the array that was never written.
\<close>

theorem scalar_finalize_not_clamped:
  "aggregate quantile_append_double quantile_double []
     [(Some (Finite 10), Finite 1), (Some (Finite 20), Finite 1),
      (Some (Finite 30), Finite 1), (Some (Finite 40), Finite 1)] = Inr (Some (Finite 10)) \<and>
   aggregate quantile_append_double_array quantile_double_array []
     [(Some (Finite 10), float8_array [Finite 1]), (Some (Finite 20), float8_array [Finite 1]),
      (Some (Finite 30), float8_array [Finite 1]), (Some (Finite 40), float8_array [Finite 1])] =
     Inr (Some [Finite 40]) \<and>
   aggregate quantile_append_int32 quantile_int32 []
     [(Some 5, Finite 2), (Some 6, Finite 2)] = Inl (Uninitialized 3)"
  by code_simp

text \<open>
  Claim C3 says that a group without any value gives no result and reads nothing out of
  bounds. A group whose rows are all missing has a state (the first call creates it) with
  \<open>next_pos = 0\<close>, and the final functions compute an index from it: \<open>-1\<close> for a
  probability strictly between 0 and 1 or, in the array function, of 1 or more, and \<open>0\<close>,
  a cell never written, for the others. Only a group without any row has no state, and
  for it the final function returns NULL.
\<close>

theorem empty_group_reads_out_of_bounds:
  "aggregate quantile_append_double quantile_double [] [] = Inr None \<and>
   aggregate quantile_append_double quantile_double [] [(None, Finite (1 / 2))] =
     Inl (OutOfBounds (- 1)) \<and>
   aggregate quantile_append_double_array quantile_double_array []
     [(None, float8_array [Finite 1])] = Inl (OutOfBounds (- 1)) \<and>
   aggregate quantile_append_double_array quantile_double_array []
     [(None, float8_array [Finite 0])] = Inl (Uninitialized 0)"
  by code_simp

subsection \<open>Contract violations\<close>

text \<open>
  Claim C9 says that a call that supplies an array of probabilities that is not
  single-dimensional raises an error. A call that receives a state does not look at the
  array: the second call here carries a two-dimensional array, returns normally and has
  appended its value.
\<close>

theorem malformed_array_ignored_after_creation:
  "transitions quantile_append_double_array [] None
     [(Some (Finite 1), float8_array [Finite (1 / 2)]),
      (Some (Finite 2),
       \<lparr>arr_ndim = 2, arr_dims = [1, 2], arr_data = [Finite (1 / 4), Finite (3 / 4)]\<rparr>)] =
   Inr (Some 0,
     [\<lparr>nquantiles = 1, nelements = 1024, next_pos = 2, quantiles = Some [Finite (1 / 2)],
       elements = Some (Finite 1) # Some (Finite 2) # replicate 1022 None\<rparr>])"
  by code_simp

lemma quantile_scalar_no_context:
  "quantile_scalar fname cmp h False arg0 = Inl (NonAggregateContext fname)"
  by (simp add: quantile_scalar_def)

lemma quantile_array_no_context:
  "quantile_array fname elsize cmp h False arg0 = Inl (NonAggregateContext fname)"
  by (simp add: quantile_array_def)

lemma quantile_append_array_not_flat:
  assumes "arr_ndim arr \<noteq> 1"
  shows "quantile_append fname elsize array_to_double h True None arg1 arr =
         Inl (NotSingleDimensional (arr_ndim arr))"
  using assms by (simp add: quantile_append_create array_to_double_def Let_def)

text \<open>
  Claim C9, amended. Every transition and final function called outside an aggregate
  context raises the error "called in non-aggregate context" whatever its arguments
  are, before it reads or writes anything; and an array transition function that is to
  create the state (argument 0 is NULL) raises an error when the array of probabilities
  does not have exactly one dimension. An error result carries no store: the call
  creates and changes no state.
\<close>

theorem contract_violations_abort:
  "quantile_append_double h False arg0 arg1 arg2 =
     Inl (NonAggregateContext ''quantile_append_double'') \<and>
   quantile_append_double_array h False arg0 arg1 arr =
     Inl (NonAggregateContext ''quantile_append_double_array'') \<and>
   quantile_double h False arg0 = Inl (NonAggregateContext ''quantile_double'') \<and>
   quantile_double_array h False arg0 = Inl (NonAggregateContext ''quantile_double_array'') \<and>
   quantile_append_int32 h32 False arg0 v32 arg2 =
     Inl (NonAggregateContext ''quantile_append_int32'') \<and>
   quantile_append_int32_array h32 False arg0 v32 arr =
     Inl (NonAggregateContext ''quantile_append_int32_array'') \<and>
   quantile_int32 h32 False arg0 = Inl (NonAggregateContext ''quantile_int32'') \<and>
   quantile_int32_array h32 False arg0 = Inl (NonAggregateContext ''quantile_int32_array'') \<and>
   quantile_append_int64 h64 False arg0 v64 arg2 =
     Inl (NonAggregateContext ''quantile_append_int64'') \<and>
   quantile_append_int64_array h64 False arg0 v64 arr =
     Inl (NonAggregateContext ''quantile_append_int64_array'') \<and>
   quantile_int64 h64 False arg0 = Inl (NonAggregateContext ''quantile_int64'') \<and>
   quantile_int64_array h64 False arg0 = Inl (NonAggregateContext ''quantile_int64_array'') \<and>
   (arr_ndim arr \<noteq> 1 \<longrightarrow>
      quantile_append_double_array h True None arg1 arr =
        Inl (NotSingleDimensional (arr_ndim arr)) \<and>
      quantile_append_int32_array h32 True None v32 arr =
        Inl (NotSingleDimensional (arr_ndim arr)) \<and>
      quantile_append_int64_array h64 True None v64 arr =
        Inl (NotSingleDimensional (arr_ndim arr)))"
  by (simp add: quantile_append_double_def quantile_append_double_array_def
      quantile_append_int32_def quantile_append_int32_array_def
      quantile_append_int64_def quantile_append_int64_array_def
      quantile_int32_def quantile_int32_array_def quantile_int64_def quantile_int64_array_def
      quantile_double_array_def quantile_double_def
      quantile_append_no_context quantile_scalar_no_context quantile_array_no_context
      quantile_append_array_not_flat)

theorem contract_violations_abort_witness:
  "arr_ndim \<lparr>arr_ndim = 2, arr_dims = [1, 2], arr_data = [Finite (1 / 4), Finite (3 / 4)]\<rparr> \<noteq> 1 \<and>
   quantile_append_double_array [] True None (Some (Finite 1))
     \<lparr>arr_ndim = 2, arr_dims = [1, 2], arr_data = [Finite (1 / 4), Finite (3 / 4)]\<rparr> =
   Inl (NotSingleDimensional 2)"
proof -
  let ?a = "\<lparr>arr_ndim = 2, arr_dims = [1, 2], arr_data = [Finite (1 / 4), Finite (3 / 4)]\<rparr>"
  have n: "arr_ndim ?a \<noteq> 1" by simp
  note T = contract_violations_abort[where arr = ?a and h = "[]" and ?arg1.0 = "Some (Finite 1)"]
  have "quantile_append_double_array [] True None (Some (Finite 1)) ?a =
      Inl (NotSingleDimensional (arr_ndim ?a))"
    by (rule T[THEN conjunct2, THEN conjunct2, THEN conjunct2, THEN conjunct2,
          THEN conjunct2, THEN conjunct2, THEN conjunct2, THEN conjunct2,
          THEN conjunct2, THEN conjunct2, THEN conjunct2, THEN conjunct2,
          THEN mp, OF n, THEN conjunct1])
  then show ?thesis by simp
qed

subsection \<open>Sorting\<close>

lemma mset_insert_cmp: "mset (insert_cmp cmp x xs) = add_mset x (mset xs)"
  by (induction xs) simp_all

lemma mset_qsort: "mset (qsort cmp xs) = mset xs"
  by (induction xs) (simp_all add: qsort_def mset_insert_cmp)

lemma length_qsort: "length (qsort cmp xs) = length xs"
  using mset_qsort[of cmp xs] by (metis size_mset)

lemma set_qsort: "set (qsort cmp xs) = set xs"
  using mset_qsort[of cmp xs] by (metis set_mset_mset)

text \<open>A comparator that agrees with a linear order on keys.\<close>

lemma map_key_insert_cmp:
  assumes "\<forall>y \<in> set xs. (cmp x y \<le> 0) = (key x \<le> key y)"
  shows "map key (insert_cmp cmp x xs) = insort (key x) (map key xs)"
  using assms by (induction xs) simp_all

lemma map_key_qsort:
  assumes "\<forall>x \<in> set xs. \<forall>y \<in> set xs. (cmp x y \<le> 0) = (key x \<le> key y)"
  shows "map key (qsort cmp xs) = sort (map key xs)"
  using assms
proof (induction xs)
  case Nil
  then show ?case by (simp add: qsort_def)
next
  case (Cons x xs)
  have "qsort cmp (x # xs) = insert_cmp cmp x (qsort cmp xs)" by (simp add: qsort_def)
  moreover have "\<forall>y \<in> set (qsort cmp xs). (cmp x y \<le> 0) = (key x \<le> key y)"
    using Cons.prems by (simp add: set_qsort)
  ultimately have "map key (qsort cmp (x # xs)) = insort (key x) (map key (qsort cmp xs))"
    by (simp add: map_key_insert_cmp)
  also have "map key (qsort cmp xs) = sort (map key xs)" using Cons by simp
  finally show ?case by (simp add: sort_key_def)
qed

lemma double_comparator_key:
  assumes "x \<noteq> NaN" "y \<noteq> NaN"
  shows "(double_comparator x y \<le> 0) = (dkey x \<le> dkey y)"
  using assms by (auto simp: double_comparator_def dgreater_def dless_def)

lemma sorted_wrt_dle:
  assumes "sorted (map dkey xs)" "NaN \<notin> set xs"
  shows "sorted_wrt dle xs"
  using assms by (induction xs) (auto simp: dle_def)

lemma qsort_double_sorted:
  assumes "NaN \<notin> set xs"
  shows "sorted_wrt dle (qsort double_comparator xs) \<and> mset (qsort double_comparator xs) = mset xs"
proof -
  have "\<forall>x \<in> set xs. \<forall>y \<in> set xs. (double_comparator x y \<le> 0) = (dkey x \<le> dkey y)"
    using assms double_comparator_key by metis
  then have "map dkey (qsort double_comparator xs) = sort (map dkey xs)" by (rule map_key_qsort)
  then have "sorted (map dkey (qsort double_comparator xs))" by simp
  moreover have "NaN \<notin> set (qsort double_comparator xs)" using assms by (simp add: set_qsort)
  ultimately show ?thesis using sorted_wrt_dle mset_qsort by blast
qed

subsection \<open>The final functions on a state that satisfies the invariant\<close>

lemma sort_elements_ok:
  assumes "state_ok elsize data"
  shows "sort_elements cmp data =
           Inr (data\<lparr>elements := map Some (qsort cmp (accumulated data)) @
                               drop (nat (next_pos data)) (elements data)\<rparr>)"
proof -
  have n: "0 \<le> next_pos data" "next_pos data \<le> int (length (elements data))"
    using assms by (simp_all add: state_ok_def)
  have "list_all (\<lambda>c. c \<noteq> None) (take (nat (next_pos data)) (elements data))"
    using assms by (simp add: state_ok_def)
  then have "\<not> list_ex (\<lambda>c. c = None) (take (nat (next_pos data)) (elements data))"
    by (auto simp: list_ex_iff list_all_iff)
  with n show ?thesis by (simp add: sort_elements_def Let_def accumulated_def)
qed

lemma read_sorted_cell:
  assumes "0 \<le> idx" "idx < int (length S)"
  shows "read_cell (map Some S @ rest) idx = Inr (S ! nat idx)"
proof -
  have "nat idx < length S" using assms by simp
  then show ?thesis using assms by (simp add: read_cell_def nth_append)
qed

lemma read_quantile_at:
  assumes "qs = (case quantiles data of None \<Rightarrow> [] | Some qs \<Rightarrow> qs)" "0 \<le> i" "i < int (length qs)"
  shows "read_quantile data i = Inr (qs ! nat i)"
  using assms by (cases "quantiles data") (simp_all add: read_quantile_def)

lemma rank_index_NaN: "rank_index n NaN idx = Inr idx"
  by (simp add: rank_index_def dgreater_def dless_def dle_def dge_def)

lemma rank_values_no_NaN:
  assumes "NaN \<notin> set qs"
  shows "rank_values S idx qs = map (\<lambda>q. S ! nat (nearest_rank (int (length S)) q)) qs"
  using assms by (induction qs arbitrary: idx) (auto simp: Let_def)

lemma length_rank_values [simp]: "length (rank_values S idx qs) = length qs"
  by (induction qs arbitrary: idx) (simp_all add: Let_def)

lemma nearest_rank_in_range:
  assumes "1 \<le> n" "n < 2 ^ 31" "is_double q" "q \<noteq> NaN"
  shows "0 \<le> nearest_rank n q \<and> nearest_rank n q < n"
  using rank_index_nearest[OF assms, of 0] by simp

lemma quantile_loop_values:
  assumes qs: "qs = (case quantiles data of None \<Rightarrow> [] | Some qs \<Rightarrow> qs)"
      "nquantiles data = int (length qs)"
    and el: "elements data = map Some S @ rest" "next_pos data = int (length S)"
    and n: "1 \<le> length S" "int (length S) < 2 ^ 31"
    and ok: "\<forall>q \<in> set qs. is_double q"
    and i: "0 \<le> i" "i \<le> int (length qs)" and ix: "0 \<le> idx" "idx < int (length S)"
  shows "quantile_loop data i idx result = Inr (result @ rank_values S idx (drop (nat i) qs))"
  using i ix
proof (induction "nat (int (length qs) - i)" arbitrary: i idx result)
  case 0
  then have "\<not> i < nquantiles data" "drop (nat i) qs = []" using qs(2) by simp_all
  then show ?case by (simp add: quantile_loop.simps[of data i idx result])
next
  case (Suc k)
  then have lt: "i < nquantiles data" using qs(2) by simp
  have i0: "0 \<le> i" "i < int (length qs)" using Suc.prems lt qs(2) by simp_all
  define q where "q = qs ! nat i"
  define j where "j = (if q = NaN then idx else nearest_rank (int (length S)) q)"
  have qin: "q \<in> set qs" using i0 by (simp add: q_def)
  have rq: "read_quantile data i = Inr q" unfolding q_def using qs(1) i0 by (rule read_quantile_at)
  have n': "1 \<le> int (length S)" using n(1) by simp
  have ri: "rank_index (int (length S)) q idx = Inr j \<and> 0 \<le> j \<and> j < int (length S)"
  proof (cases "q = NaN")
    case True
    with Suc.prems(3,4) show ?thesis by (simp add: j_def rank_index_NaN)
  next
    case False
    from rank_index_nearest[OF n' n(2) _ False, of idx] ok qin False show ?thesis
      by (simp add: j_def)
  qed
  have rc: "read_cell (elements data) j = Inr (S ! nat j)"
    unfolding el(1) using ri by (intro read_sorted_cell) simp_all
  have k: "k = nat (int (length qs) - (i + 1))" using Suc.hyps(2) by simp
  have i1: "0 \<le> i + 1" "i + 1 \<le> int (length qs)" using i0 by simp_all
  have j1: "0 \<le> j" "j < int (length S)" using ri by simp_all
  have dr: "drop (nat i) qs = q # drop (nat (i + 1)) qs"
  proof -
    have "nat (i + 1) = Suc (nat i)" using i0 by simp
    then show ?thesis using i0 by (simp add: q_def Cons_nth_drop_Suc)
  qed
  have "quantile_loop data i idx result = quantile_loop data (i + 1) j (result @ [S ! nat j])"
    using lt rq ri rc by (simp add: quantile_loop.simps[of data i idx result] el(2))
  also have "\<dots> = Inr ((result @ [S ! nat j]) @ rank_values S j (drop (nat (i + 1)) qs))"
    using k i1 j1 by (rule Suc.hyps(1))
  finally show ?case by (simp add: dr j_def Let_def)
qed

text \<open>The \<^verbatim>\<open>int\<close> fields of a state that satisfies the invariant are far inside the range
  of a 32-bit \<^verbatim>\<open>int\<close>, also after the addition of \<^verbatim>\<open>SLICE_SIZE\<close>.\<close>

lemma state_ok_int_range:
  assumes "state_ok elsize data" "1 \<le> elsize"
  shows "0 \<le> next_pos data \<and> next_pos data \<le> nelements data \<and>
         nelements data + SLICE_SIZE < 2 ^ 31 \<and> 0 \<le> nquantiles data \<and> nquantiles data < 2 ^ 31"
proof -
  have ne: "0 < nelements data" "elsize * nelements data \<le> MaxAllocSize"
    using assms(1) by (simp_all add: state_ok_def AllocSizeIsValid_def)
  have "1 * nelements data \<le> elsize * nelements data"
    using assms(2) ne(1) by (intro mult_right_mono) simp_all
  with ne(2) have "nelements data \<le> MaxAllocSize" by simp
  then have a: "nelements data + SLICE_SIZE < 2 ^ 31"
    by (simp add: MaxAllocSize_def SLICE_SIZE_def)
  have "0 \<le> nquantiles data \<and> nquantiles data < 2 ^ 31"
    using assms(1) by (auto simp: state_ok_def request_ok_def AllocSizeIsValid_def MaxAllocSize_def)
  with a assms(1) show ?thesis by (simp add: state_ok_def)
qed

lemma quantile_array_values:
  assumes p: "p < length h" and ok: "state_ok elsize (h ! p)" and el: "1 \<le> elsize"
    and va: "AllocSizeIsValid (nquantiles (h ! p) * elsize)"
    and ne: "1 \<le> next_pos (h ! p)"
    and qs: "qs = (case quantiles (h ! p) of None \<Rightarrow> [] | Some qs \<Rightarrow> qs)"
    and okq: "\<forall>q \<in> set qs. is_double q"
  shows "quantile_array fname elsize cmp h True (Some p) =
     Inr (Some (rank_values (qsort cmp (accumulated (h ! p))) 0 qs),
          h[p := (h ! p)\<lparr>elements := map Some (qsort cmp (accumulated (h ! p))) @
                           drop (nat (next_pos (h ! p))) (elements (h ! p))\<rparr>])"
proof -
  define data where "data = h ! p"
  define S where "S = qsort cmp (accumulated data)"
  define data' where "data' = data\<lparr>elements := map Some S @ drop (nat (next_pos data)) (elements data)\<rparr>"
  have len: "int (length S) = next_pos data"
    using state_ok_next_length[OF ok] by (simp add: S_def length_qsort data_def)
  have so: "sort_elements cmp data = Inr data'"
    using sort_elements_ok[OF ok, of cmp] by (simp add: data_def data'_def S_def)
  have nq: "nquantiles data = int (length qs)"
    using ok qs by (auto simp: state_ok_def request_ok_def data_def split: option.splits)
  have n1: "1 \<le> length S" using len ne by (simp add: data_def)
  have n2: "int (length S) < 2 ^ 31"
    using state_ok_int_range[OF ok el] len by (simp add: data_def SLICE_SIZE_def)
  have "quantile_loop data' 0 0 [] = Inr ([] @ rank_values S 0 (drop (nat 0) qs))"
  proof (rule quantile_loop_values[where rest = "drop (nat (next_pos data)) (elements data)"])
    show "qs = (case quantiles data' of None \<Rightarrow> [] | Some qs \<Rightarrow> qs)"
      using qs by (simp add: data'_def data_def)
    show "nquantiles data' = int (length qs)" using nq by (simp add: data'_def)
    show "elements data' = map Some S @ drop (nat (next_pos data)) (elements data)"
      by (simp add: data'_def)
    show "next_pos data' = int (length S)" using len by (simp add: data'_def)
    show "1 \<le> length S" by (rule n1)
    show "int (length S) < 2 ^ 31" by (rule n2)
    show "\<forall>q \<in> set qs. is_double q" by (rule okq)
    show "(0::int) \<le> 0" by simp
    show "0 \<le> int (length qs)" by simp
    show "(0::int) \<le> 0" by simp
    show "0 < int (length S)" using n1 by (cases S) simp_all
  qed
  then have lo: "quantile_loop data' 0 0 [] = Inr (rank_values S 0 qs)" by simp
  have "quantile_array fname elsize cmp h True (Some p) =
      Inr (Some (values_to_array (rank_values S 0 qs) (nquantiles data')), h[p := data'])"
    using p va so lo by (simp add: quantile_array_def state_at_def data_def[symmetric])
  moreover have "nquantiles data' = int (length qs)" using nq by (simp add: data'_def)
  ultimately show ?thesis
    by (simp add: values_to_array_def data'_def S_def data_def)
qed

lemma quantile_array_no_request:
  assumes p: "p < length h" and ok: "state_ok elsize (h ! p)" and nq: "nquantiles (h ! p) = 0"
  shows "quantile_array fname elsize cmp h True (Some p) =
     Inr (Some [],
          h[p := (h ! p)\<lparr>elements := map Some (qsort cmp (accumulated (h ! p))) @
                           drop (nat (next_pos (h ! p))) (elements (h ! p))\<rparr>])"
  using p nq sort_elements_ok[OF ok, of cmp]
  by (simp add: quantile_array_def state_at_def AllocSizeIsValid_def MaxAllocSize_def
      quantile_loop.simps values_to_array_def)

lemma quantile_double_result:
  assumes p: "p < length h" and ok: "state_ok 8 (h ! p)"
    and ne: "1 \<le> next_pos (h ! p)"
    and qs: "quantiles (h ! p) = Some (q # qs)" and okq: "is_double q"
  shows "quantile_double h True (Some p) =
     Inr (Some (qsort double_comparator (accumulated (h ! p)) !
                  nat (if dless (Finite 0) q \<and> dless q (Finite 1)
                       then nearest_rank (int (length (accumulated (h ! p)))) q else 0)),
          h[p := (h ! p)\<lparr>elements := map Some (qsort double_comparator (accumulated (h ! p))) @
                           drop (nat (next_pos (h ! p))) (elements (h ! p))\<rparr>])"
proof -
  define data where "data = h ! p"
  define S where "S = qsort double_comparator (accumulated data)"
  define data' where "data' = data\<lparr>elements := map Some S @ drop (nat (next_pos data)) (elements data)\<rparr>"
  have len: "int (length S) = next_pos data"
    using state_ok_next_length[OF ok] by (simp add: S_def length_qsort data_def)
  have so: "sort_elements double_comparator data = Inr data'"
    using sort_elements_ok[OF ok, of double_comparator] by (simp add: data_def data'_def S_def)
  have va: "AllocSizeIsValid (nquantiles data * 8)"
    using ok unfolding state_ok_def request_ok_def data_def by blast
  have n1: "1 \<le> int (length S)" using len ne by (simp add: data_def)
  have n2: "int (length S) < 2 ^ 31"
    using state_ok_int_range[OF ok] len by (simp add: data_def SLICE_SIZE_def)
  have rq: "read_quantile data' 0 = Inr q"
    using qs by (simp add: read_quantile_def data'_def data_def)
  define idx where "idx = (if dless (Finite 0) q \<and> dless q (Finite 1)
                       then nearest_rank (int (length S)) q else 0)"
  have ix: "(if dgreater q (Finite 0) \<and> dless q (Finite 1)
             then ceil_index (next_pos data') q else Inr 0) = Inr idx"
    and rng: "0 \<le> idx" "idx < int (length S)"
    using ceil_index_in_range[OF n1 n2 okq] n1 len
    by (auto simp: idx_def dgreater_def data'_def)
  have rc: "read_cell (elements data') idx = Inr (S ! nat idx)"
    using read_sorted_cell[OF rng] by (simp add: data'_def)
  have "quantile_double h True (Some p) = Inr (Some (S ! nat idx), h[p := data'])"
    using p va so rq ix rc by (simp add: quantile_double_def state_at_def data_def[symmetric])
  moreover have "length S = length (accumulated data)" by (simp add: S_def length_qsort)
  ultimately show ?thesis by (simp add: idx_def data'_def S_def data_def)
qed

lemma quantile_scalar_result:
  assumes p: "p < length h" and ok: "state_ok elsize (h ! p)" and el: "1 \<le> elsize"
    and ne: "1 \<le> next_pos (h ! p)"
    and qs: "quantiles (h ! p) = Some (q # qs)"
    and okq: "is_double q" "dless (Finite 0) q" "dless q (Finite 1)"
  shows "quantile_scalar fname cmp h True (Some p) =
     Inr (Some (qsort cmp (accumulated (h ! p)) !
                  nat (nearest_rank (int (length (accumulated (h ! p)))) q)),
          h[p := (h ! p)\<lparr>elements := map Some (qsort cmp (accumulated (h ! p))) @
                           drop (nat (next_pos (h ! p))) (elements (h ! p))\<rparr>])"
proof -
  define data where "data = h ! p"
  define S where "S = qsort cmp (accumulated data)"
  define data' where "data' = data\<lparr>elements := map Some S @ drop (nat (next_pos data)) (elements data)\<rparr>"
  have len: "int (length S) = next_pos data"
    using state_ok_next_length[OF ok] by (simp add: S_def length_qsort data_def)
  have so: "sort_elements cmp data = Inr data'"
    using sort_elements_ok[OF ok, of cmp] by (simp add: data_def data'_def S_def)
  have n1: "1 \<le> int (length S)" using len ne by (simp add: data_def)
  have n2: "int (length S) < 2 ^ 31"
    using state_ok_int_range[OF ok el] len by (simp add: data_def SLICE_SIZE_def)
  have rq: "read_quantile data' 0 = Inr q"
    using qs by (simp add: read_quantile_def data'_def data_def)
  define idx where "idx = nearest_rank (int (length S)) q"
  have ix: "(if dgreater q (Finite 0) then ceil_index (next_pos data') q else Inr 0) = Inr idx"
    and rng: "0 \<le> idx" "idx < int (length S)"
    using ceil_index_in_range[OF n1 n2 okq] okq(2) len
    by (auto simp: idx_def dgreater_def data'_def)
  have rc: "read_cell (elements data') idx = Inr (S ! nat idx)"
    using read_sorted_cell[OF rng] by (simp add: data'_def)
  have "quantile_scalar fname cmp h True (Some p) = Inr (Some (S ! nat idx), h[p := data'])"
    using p so rq ix rc by (simp add: quantile_scalar_def state_at_def data_def[symmetric])
  moreover have "length S = length (accumulated data)" by (simp add: S_def length_qsort)
  ultimately show ?thesis by (simp add: idx_def data'_def S_def data_def)
qed

subsection \<open>The calls for one group\<close>

lemma array_to_double_loop_succeeds:
  assumes "0 \<le> i" "i \<le> nitems" "nitems \<le> int (length p)"
  shows "array_to_double_loop p nitems i result =
           Inr (result @ take (nat (nitems - i)) (drop (nat i) p))"
  using assms
proof (induction "nat (nitems - i)" arbitrary: i result)
  case 0
  then show ?case by (simp add: array_to_double_loop.simps[of p nitems i result])
next
  case (Suc k)
  then have lt: "i < nitems" by simp
  have inb: "\<not> (i < 0 \<or> int (length p) \<le> i)" using Suc.prems lt by simp
  have k: "k = nat (nitems - (i + 1))" using Suc.hyps(2) by simp
  have i1: "0 \<le> i + 1" "i + 1 \<le> nitems" using Suc.prems lt by simp_all
  have a: "nat (nitems - i) = Suc (nat (nitems - (i + 1)))" using lt by simp
  have b: "nat (i + 1) = Suc (nat i)" using Suc.prems by simp
  have c: "nat i < length p" using inb Suc.prems by simp
  have dr: "take (nat (nitems - i)) (drop (nat i) p) =
      p ! nat i # take (nat (nitems - (i + 1))) (drop (nat (i + 1)) p)"
    unfolding a b using c by (simp add: Cons_nth_drop_Suc[symmetric])
  have "array_to_double_loop p nitems i result =
      array_to_double_loop p nitems (i + 1) (result @ [p ! nat i])"
    using lt inb by (simp add: array_to_double_loop.simps[of p nitems i result])
  also have "\<dots> = Inr ((result @ [p ! nat i]) @
      take (nat (nitems - (i + 1))) (drop (nat (i + 1)) p))"
    using k i1 Suc.prems(3) by (rule Suc.hyps(1))
  finally show ?case by (simp add: dr)
qed

lemma array_to_double_float8_array:
  assumes "AllocSizeIsValid (int (length qs) * 8)"
  shows "array_to_double (float8_array qs) =
           Inr (if qs = [] then None else Some qs, int (length qs))"
proof (cases "qs = []")
  case True
  then show ?thesis by (simp add: array_to_double_def float8_array_def ArrayGetNItems_def)
next
  case False
  have "array_to_double_loop qs (int (length qs)) 0 [] =
      Inr ([] @ take (nat (int (length qs) - 0)) (drop (nat 0) qs))"
    by (rule array_to_double_loop_succeeds) simp_all
  then have "array_to_double_loop qs (int (length qs)) 0 [] = Inr qs" by simp
  with False assms show ?thesis
    by (simp add: array_to_double_def float8_array_def ArrayGetNItems_def)
qed

lemma array_to_double_no_items:
  assumes "arr_ndim arr = 1" "ArrayGetNItems (arr_ndim arr) (arr_dims arr) = 0"
  shows "array_to_double arr = Inr (None, 0)"
  using assms by (simp add: array_to_double_def Let_def)

lemma elsize_8_le: "(8::int) \<le> 8"
  by simp

lemma elsize_4: "(0::int) < 4" "4 * SLICE_SIZE \<le> MaxAllocSize" "(4::int) \<le> 8"
  by (simp_all add: SLICE_SIZE_def MaxAllocSize_def)

lemma max_capacity_8_bound:
  assumes "int n \<le> max_capacity 8"
  shows "int n < 2 ^ 31"
  using assms by (simp add: max_capacity_def SLICE_SIZE_def MaxAllocSize_def)

lemma max_capacity_bound:
  assumes "int n \<le> max_capacity elsize" "1 \<le> elsize"
  shows "int n < 2 ^ 31"
proof -
  have pos: "0 < elsize * SLICE_SIZE" using assms(2) by (simp add: SLICE_SIZE_def)
  have "MaxAllocSize div (elsize * SLICE_SIZE) * (elsize * SLICE_SIZE) \<le> MaxAllocSize"
    using div_mult_mod_eq[of MaxAllocSize "elsize * SLICE_SIZE"]
      pos_mod_sign[OF pos, of MaxAllocSize] by linarith
  moreover have "0 \<le> MaxAllocSize div (elsize * SLICE_SIZE)"
    using pos by (simp add: pos_imp_zdiv_nonneg_iff MaxAllocSize_def)
  then have "SLICE_SIZE * (MaxAllocSize div (elsize * SLICE_SIZE)) * 1 \<le>
      SLICE_SIZE * (MaxAllocSize div (elsize * SLICE_SIZE)) * elsize"
    using assms(2) by (intro mult_left_mono) (simp_all add: SLICE_SIZE_def)
  ultimately have "max_capacity elsize \<le> MaxAllocSize"
    by (simp add: max_capacity_def algebra_simps)
  with assms(1) show ?thesis by (simp add: MaxAllocSize_def)
qed

lemma aggregate_array_values:
  assumes el: "0 < elsize" "elsize * SLICE_SIZE \<le> MaxAllocSize" "elsize \<le> 8"
    and cap: "int (length (present (row # rows))) \<le> max_capacity elsize"
    and rq: "snd row = float8_array qs" and va: "AllocSizeIsValid (int (length qs) * 8)"
    and okq: "\<forall>q \<in> set qs. is_double q"
    and ne: "present (row # rows) \<noteq> []"
  shows "aggregate (quantile_append fa elsize array_to_double) (quantile_array ff elsize cmp)
           (h :: 'a heap) (row # rows) =
         Inr (Some (rank_values (qsort cmp (present (row # rows))) 0 qs))"
proof -
  have req: "array_to_double (snd row) = Inr (if qs = [] then None else Some qs, int (length qs))"
    unfolding rq using va by (rule array_to_double_float8_array)
  from transitions_succeeds[OF el(1,2) array_to_double_ok_all req cap, of fa h]
  obtain h' where tr: "transitions (quantile_append fa elsize array_to_double) h None (row # rows) =
      Inr (Some (length h), h')" by blast
  from transitions_result[OF el(1,2) array_to_double_ok_all tr] req
  obtain s where s: "h' = h @ [s]" "state_ok elsize s" "accumulated s = present (row # rows)"
    "quantiles s = (if qs = [] then None else Some qs)" "nquantiles s = int (length qs)" by auto
  have p: "length h < length h'" "state_ok elsize (h' ! length h)" using s by simp_all
  have el1: "1 \<le> elsize" using el(1) by simp
  have nq: "0 \<le> nquantiles s" "nquantiles s * 8 \<le> MaxAllocSize"
    using s(2) by (auto simp: state_ok_def request_ok_def AllocSizeIsValid_def)
  have "nquantiles s * elsize \<le> nquantiles s * 8" using el(3) nq(1) by (rule mult_left_mono)
  then have va': "AllocSizeIsValid (nquantiles (h' ! length h) * elsize)"
    using nq el(1) by (simp add: AllocSizeIsValid_def s(1))
  have n1: "1 \<le> next_pos (h' ! length h)"
    using state_ok_next_length[OF s(2)] ne s(1,3) by (cases "present (row # rows)") simp_all
  have q': "qs = (case quantiles (h' ! length h) of None \<Rightarrow> [] | Some qs \<Rightarrow> qs)"
    using s(1,4) by simp
  from quantile_array_values[OF p el1 va' n1 q' okq, of ff cmp] tr s(1,3)
  show ?thesis by (simp add: aggregate_def)
qed

lemma aggregate_array_no_request:
  assumes el: "0 < elsize" "elsize * SLICE_SIZE \<le> MaxAllocSize"
    and cap: "int (length (present (row # rows))) \<le> max_capacity elsize"
    and req: "array_to_double (snd row) = Inr (None, 0)"
  shows "aggregate (quantile_append fa elsize array_to_double) (quantile_array ff elsize cmp)
           (h :: 'a heap) (row # rows) = Inr (Some [])"
proof -
  from transitions_succeeds[OF el(1,2) array_to_double_ok_all req cap, of fa h]
  obtain h' where tr: "transitions (quantile_append fa elsize array_to_double) h None (row # rows) =
      Inr (Some (length h), h')" by blast
  from transitions_result[OF el(1,2) array_to_double_ok_all tr] req
  obtain s where s: "h' = h @ [s]" "state_ok elsize s" "nquantiles s = 0" by auto
  have p: "length h < length h'" "state_ok elsize (h' ! length h)" "nquantiles (h' ! length h) = 0"
    using s by simp_all
  from quantile_array_no_request[OF p, of ff cmp] tr show ?thesis by (simp add: aggregate_def)
qed

text \<open>The conclusion the three copies of the array final function share.\<close>

lemma aggregate_array_aligned:
  assumes el: "0 < elsize" "elsize * SLICE_SIZE \<le> MaxAllocSize" "elsize \<le> 8"
    and cap: "int (length (present (row # rows))) \<le> max_capacity elsize"
    and rq: "snd row = float8_array qs" and va: "AllocSizeIsValid (int (length qs) * 8)"
    and okq: "list_all (\<lambda>q. is_double q \<and> q \<noteq> NaN) qs"
    and ne: "present (row # rows) \<noteq> []"
    and S: "S = qsort cmp (present (row # rows))"
  shows "aggregate (quantile_append fa elsize array_to_double) (quantile_array ff elsize cmp)
           (h :: 'a heap) (row # rows) =
           Inr (Some (map (\<lambda>q. S ! nat (nearest_rank (int (length S)) q)) qs)) \<and>
         list_all (\<lambda>q. 0 \<le> nearest_rank (int (length S)) q \<and>
                       nearest_rank (int (length S)) q < int (length S)) qs"
proof -
  have okd: "\<forall>q \<in> set qs. is_double q" and nn: "NaN \<notin> set qs"
    using okq by (auto simp: list_all_iff)
  have len: "length S = length (present (row # rows))" by (simp add: S length_qsort)
  have n1: "1 \<le> int (length S)" using ne len by (cases "present (row # rows)") simp_all
  have n2: "int (length S) < 2 ^ 31" using max_capacity_bound[OF cap] el(1) len by simp
  have "list_all (\<lambda>q. 0 \<le> nearest_rank (int (length S)) q \<and>
                       nearest_rank (int (length S)) q < int (length S)) qs"
    unfolding list_all_iff using okq nearest_rank_in_range[OF n1 n2] by (auto simp: list_all_iff)
  with aggregate_array_values[OF el cap rq va okd ne, of fa ff cmp h] rank_values_no_NaN[OF nn, of S 0]
  show ?thesis by (simp add: S)
qed

lemma aggregate_double_result:
  assumes cap: "int (length (present (row # rows))) \<le> max_capacity 8"
    and ne: "present (row # rows) \<noteq> []" and okq: "is_double (snd row)"
  shows "aggregate quantile_append_double quantile_double h (row # rows) =
         Inr (Some (qsort double_comparator (present (row # rows)) !
                      nat (if dless (Finite 0) (snd row) \<and> dless (snd row) (Finite 1)
                           then nearest_rank (int (length (present (row # rows)))) (snd row)
                           else 0)))"
proof -
  have req: "scalar_request (snd row) = Inr (Some [snd row], 1)" by (simp add: scalar_request_def)
  from transitions_succeeds[OF elsize_8 scalar_request_ok_all req cap, of "''quantile_append_double''" h]
  obtain h' where tr: "transitions (quantile_append ''quantile_append_double'' 8 scalar_request) h None (row # rows) =
      Inr (Some (length h), h')" by blast
  from transitions_result[OF elsize_8 scalar_request_ok_all tr] req
  obtain s where s: "h' = h @ [s]" "state_ok 8 s" "accumulated s = present (row # rows)"
    "quantiles s = Some [snd row]" by auto
  have p: "length h < length h'" "state_ok 8 (h' ! length h)" using s by simp_all
  have n1: "1 \<le> next_pos (h' ! length h)"
    using state_ok_next_length[OF s(2)] ne s(1,3) by (cases "present (row # rows)") simp_all
  have q': "quantiles (h' ! length h) = Some (snd row # [])" using s(1,4) by simp
  from quantile_double_result[OF p n1 q' okq] tr s(1,3)
  show ?thesis by (simp add: aggregate_def quantile_append_double_def)
qed

lemma aggregate_scalar_result:
  assumes el: "0 < elsize" "elsize * SLICE_SIZE \<le> MaxAllocSize"
    and cap: "int (length (present (row # rows))) \<le> max_capacity elsize"
    and ne: "present (row # rows) \<noteq> []"
    and okq: "is_double (snd row)" "dless (Finite 0) (snd row)" "dless (snd row) (Finite 1)"
  shows "aggregate (quantile_append fa elsize scalar_request) (quantile_scalar ff cmp)
           (h :: 'a heap) (row # rows) =
         Inr (Some (qsort cmp (present (row # rows)) !
                      nat (nearest_rank (int (length (present (row # rows)))) (snd row))))"
proof -
  have req: "scalar_request (snd row) = Inr (Some [snd row], 1)" by (simp add: scalar_request_def)
  from transitions_succeeds[OF el scalar_request_ok_all req cap, of fa h]
  obtain h' where tr: "transitions (quantile_append fa elsize scalar_request) h None (row # rows) =
      Inr (Some (length h), h')" by blast
  from transitions_result[OF el scalar_request_ok_all tr] req
  obtain s where s: "h' = h @ [s]" "state_ok elsize s" "accumulated s = present (row # rows)"
    "quantiles s = Some [snd row]" by auto
  have p: "length h < length h'" "state_ok elsize (h' ! length h)" using s by simp_all
  have el1: "1 \<le> elsize" using el(1) by simp
  have n1: "1 \<le> next_pos (h' ! length h)"
    using state_ok_next_length[OF s(2)] ne s(1,3) by (cases "present (row # rows)") simp_all
  have q': "quantiles (h' ! length h) = Some (snd row # [])" using s(1,4) by simp
  from quantile_scalar_result[OF p el1 n1 q' okq, of ff cmp] tr s(1,3)
  show ?thesis by (simp add: aggregate_def)
qed

lemma int32_comparator_key: "(int32_comparator x y \<le> 0) = (sint x \<le> sint y)"
  by (auto simp: int32_comparator_def)

lemma int64_comparator_key: "(int64_comparator x y \<le> 0) = (sint x \<le> sint y)"
  by (auto simp: int64_comparator_def)

lemma qsort_int32_sorted:
  "sorted (map sint (qsort int32_comparator xs)) \<and> mset (qsort int32_comparator xs) = mset xs"
proof -
  have "\<forall>x \<in> set xs. \<forall>y \<in> set xs. (int32_comparator x y \<le> 0) = (sint x \<le> sint y)"
    by (simp add: int32_comparator_key)
  then have "map sint (qsort int32_comparator xs) = sort (map sint xs)" by (rule map_key_qsort)
  then show ?thesis by (simp add: mset_qsort)
qed

lemma qsort_int64_sorted:
  "sorted (map sint (qsort int64_comparator xs)) \<and> mset (qsort int64_comparator xs) = mset xs"
proof -
  have "\<forall>x \<in> set xs. \<forall>y \<in> set xs. (int64_comparator x y \<le> 0) = (sint x \<le> sint y)"
    by (simp add: int64_comparator_key)
  then have "map sint (qsort int64_comparator xs) = sort (map sint xs)" by (rule map_key_qsort)
  then show ?thesis by (simp add: mset_qsort)
qed

subsection \<open>A request without probabilities\<close>

text \<open>
  Claim C10. When the array of probabilities of the creating call has one dimension and
  no item, \<^verbatim>\<open>array_to_double\<close> returns NULL and the length 0 without an error, the call
  creates a state with \<open>nquantiles = 0\<close> and \<open>quantiles = NULL\<close>, and the array final
  function returns the empty sequence of values: its loop does not run, and the NULL
  pointer \<open>quantiles\<close>, whose read would be the error \<open>NullPointer\<close>, is not read. (The
  group's values must fit the largest array the allocator grants.)
\<close>

theorem empty_request_array:
  "arr_ndim arr = 1 \<and> ArrayGetNItems (arr_ndim arr) (arr_dims arr) = 0 \<longrightarrow>
     array_to_double arr = Inr (None, 0) \<and>
     (\<exists>s. quantile_append_double_array h True None arg1 arr = Inr (length h, h @ [s]) \<and>
          nquantiles s = 0 \<and> quantiles s = None) \<and>
     (int (length (present ((arg1, arr) # rows))) \<le> max_capacity 8 \<longrightarrow>
        aggregate quantile_append_double_array quantile_double_array h ((arg1, arr) # rows) =
          Inr (Some []))"
proof
  assume as: "arr_ndim arr = 1 \<and> ArrayGetNItems (arr_ndim arr) (arr_dims arr) = 0"
  then have req: "array_to_double arr = Inr (None, 0)"
    using array_to_double_no_items[of arr] by blast
  have cr: "\<exists>s. quantile_append_double_array h True None arg1 arr = Inr (length h, h @ [s]) \<and>
          nquantiles s = 0 \<and> quantiles s = None"
  proof -
    from quantile_append_create_succeeds[OF elsize_8 array_to_double_ok_all req,
        where fname = "''quantile_append_double_array''" and h = h and ?arg1.0 = arg1]
    obtain h' where h': "quantile_append ''quantile_append_double_array'' 8 array_to_double h True None arg1 arr =
        Inr (length h, h')" by blast
    from quantile_append_create_result[OF elsize_8 array_to_double_ok_all h'] req
    obtain s where "h' = h @ [s]" "quantiles s = None" "nquantiles s = 0" by auto
    with h' show ?thesis by (auto simp: quantile_append_double_array_def)
  qed
  have ag: "int (length (present ((arg1, arr) # rows))) \<le> max_capacity 8 \<longrightarrow>
        aggregate quantile_append_double_array quantile_double_array h ((arg1, arr) # rows) =
          Inr (Some [])"
  proof
    assume cap: "int (length (present ((arg1, arr) # rows))) \<le> max_capacity 8"
    have req': "array_to_double (snd (arg1, arr)) = Inr (None, 0)" using req by simp
    from aggregate_array_no_request[OF elsize_8 cap req']
    show "aggregate quantile_append_double_array quantile_double_array h ((arg1, arr) # rows) =
          Inr (Some [])"
      by (simp add: quantile_append_double_array_def quantile_double_array_def)
  qed
  from req cr ag show "array_to_double arr = Inr (None, 0) \<and>
     (\<exists>s. quantile_append_double_array h True None arg1 arr = Inr (length h, h @ [s]) \<and>
          nquantiles s = 0 \<and> quantiles s = None) \<and>
     (int (length (present ((arg1, arr) # rows))) \<le> max_capacity 8 \<longrightarrow>
        aggregate quantile_append_double_array quantile_double_array h ((arg1, arr) # rows) =
          Inr (Some []))" by (intro conjI)
qed

theorem empty_request_array_witness:
  "arr_ndim \<lparr>arr_ndim = 1, arr_dims = [0], arr_data = []\<rparr> = 1 \<and>
   ArrayGetNItems 1 [0] = 0 \<and>
   array_to_double \<lparr>arr_ndim = 1, arr_dims = [0], arr_data = []\<rparr> = Inr (None, 0) \<and>
   aggregate quantile_append_double_array quantile_double_array []
     [(Some (Finite 3), \<lparr>arr_ndim = 1, arr_dims = [0], arr_data = []\<rparr>),
      (Some (Finite 1), \<lparr>arr_ndim = 1, arr_dims = [0], arr_data = []\<rparr>)] = Inr (Some [])"
proof -
  let ?a = "\<lparr>arr_ndim = 1, arr_dims = [0], arr_data = []\<rparr>"
  have h: "arr_ndim ?a = 1 \<and> ArrayGetNItems (arr_ndim ?a) (arr_dims ?a) = 0"
    by (simp add: ArrayGetNItems_def)
  note T = empty_request_array[where arr = ?a and h = "[]" and ?arg1.0 = "Some (Finite 3)"
      and rows = "[(Some (Finite 1), ?a)]", THEN mp, OF h]
  have cap: "int (length (present [(Some (Finite 3), ?a), (Some (Finite 1), ?a)])) \<le> max_capacity 8"
    by (simp add: max_capacity_def SLICE_SIZE_def MaxAllocSize_def)
  have "aggregate quantile_append_double_array quantile_double_array []
      [(Some (Finite 3), ?a), (Some (Finite 1), ?a)] = Inr (Some [])"
    by (rule T[THEN conjunct2, THEN conjunct2, THEN mp, OF cap])
  moreover have "array_to_double ?a = Inr (None, 0)" by (rule T[THEN conjunct1])
  ultimately show ?thesis using h by simp
qed

subsection \<open>Nearest rank\<close>

text \<open>
  Claim C1 says that for every non-empty sequence of accumulated values and every
  probability strictly between 0 and 1 the final function returns the element at index
  \<open>ceil(n * p) - 1\<close> of the values in ascending order. \<^verbatim>\<open>double_comparator\<close> returns 0
  whenever one of its arguments is a NaN, so \<^verbatim>\<open>qsort\<close> leaves a NaN where it arrived and
  the result follows the order of arrival: the two values NaN and 1 with the probability
  1/2 (index 0) give NaN when the NaN arrives first and 1 when it arrives last, although
  the values in ascending order are the same in both cases.
\<close>

theorem nan_value_defeats_sort:
  "aggregate quantile_append_double quantile_double []
     [(Some NaN, Finite (1 / 2)), (Some (Finite 1), Finite (1 / 2))] = Inr (Some NaN) \<and>
   aggregate quantile_append_double quantile_double []
     [(Some (Finite 1), Finite (1 / 2)), (Some NaN, Finite (1 / 2))] = Inr (Some (Finite 1))"
  by code_simp

text \<open>
  Claim C1, amended. Let \<open>p\<close> be a probability strictly between 0 and 1, and let a group
  have \<open>n\<close> values, at least one and no more than the allocator can hold. The scalar final
  function returns the element at index \<open>ceil(n * p) - 1\<close> of the values sorted in
  ascending order, where \<open>n * p\<close> is the double-precision product the code computes, and
  the index is within the values: for \<^verbatim>\<open>quantile_int32\<close> and \<^verbatim>\<open>quantile_int64\<close> always,
  and for \<^verbatim>\<open>quantile_double\<close>, and for \<^verbatim>\<open>quantile_double_array\<close> with the request \<open>[p]\<close>,
  when no value is a NaN. \<open>S\<close> is the sorted sequence: a permutation of the values that
  ascends.
\<close>

theorem finalize_nearest_rank:
  "is_double p \<and> dless (Finite 0) p \<and> dless p (Finite 1) \<longrightarrow>
       (present (row # rows) \<noteq> [] \<and> NaN \<notin> set (present (row # rows)) \<and>
       int (length (present (row # rows))) \<le> max_capacity 8 \<and> snd row = p \<and>
       present (arow # arows) = present (row # rows) \<and> snd arow = float8_array [p] \<longrightarrow>
        (\<exists>S. mset S = mset (present (row # rows)) \<and> sorted_wrt dle S \<and>
             0 \<le> \<lceil>dvalue (dmul (int_to_double (int (length S))) p)\<rceil> - 1 \<and>
             \<lceil>dvalue (dmul (int_to_double (int (length S))) p)\<rceil> - 1 < int (length S) \<and>
             aggregate quantile_append_double quantile_double h (row # rows) =
               Inr (Some (S ! nat (\<lceil>dvalue (dmul (int_to_double (int (length S))) p)\<rceil> - 1))) \<and>
             aggregate quantile_append_double_array quantile_double_array h (arow # arows) =
               Inr (Some [S ! nat (\<lceil>dvalue (dmul (int_to_double (int (length S))) p)\<rceil> - 1)]))) \<and>
       (present (irow # irows) \<noteq> [] \<and> int (length (present (irow # irows))) \<le> max_capacity 4 \<and>
       snd irow = p \<longrightarrow>
        (\<exists>S. mset S = mset (present (irow # irows)) \<and> sorted (map sint S) \<and>
             0 \<le> \<lceil>dvalue (dmul (int_to_double (int (length S))) p)\<rceil> - 1 \<and>
             \<lceil>dvalue (dmul (int_to_double (int (length S))) p)\<rceil> - 1 < int (length S) \<and>
             aggregate quantile_append_int32 quantile_int32 h32 (irow # irows) =
               Inr (Some (S ! nat (\<lceil>dvalue (dmul (int_to_double (int (length S))) p)\<rceil> - 1))))) \<and>
       (present (lrow # lrows) \<noteq> [] \<and> int (length (present (lrow # lrows))) \<le> max_capacity 8 \<and>
       snd lrow = p \<longrightarrow>
        (\<exists>S. mset S = mset (present (lrow # lrows)) \<and> sorted (map sint S) \<and>
             0 \<le> \<lceil>dvalue (dmul (int_to_double (int (length S))) p)\<rceil> - 1 \<and>
             \<lceil>dvalue (dmul (int_to_double (int (length S))) p)\<rceil> - 1 < int (length S) \<and>
             aggregate quantile_append_int64 quantile_int64 h64 (lrow # lrows) =
               Inr (Some (S ! nat (\<lceil>dvalue (dmul (int_to_double (int (length S))) p)\<rceil> - 1)))))"
proof
  assume "is_double p \<and> dless (Finite 0) p \<and> dless p (Finite 1)"
  then have p: "is_double p" "dless (Finite 0) p" "dless p (Finite 1)" by simp_all
  have pn: "p \<noteq> NaN" using p(2) by (auto simp: dless_def)
  have c0: "present (row # rows) \<noteq> [] \<and> NaN \<notin> set (present (row # rows)) \<and>
       int (length (present (row # rows))) \<le> max_capacity 8 \<and> snd row = p \<and>
       present (arow # arows) = present (row # rows) \<and> snd arow = float8_array [p] \<longrightarrow>
        (\<exists>S. mset S = mset (present (row # rows)) \<and> sorted_wrt dle S \<and>
             0 \<le> \<lceil>dvalue (dmul (int_to_double (int (length S))) p)\<rceil> - 1 \<and>
             \<lceil>dvalue (dmul (int_to_double (int (length S))) p)\<rceil> - 1 < int (length S) \<and>
             aggregate quantile_append_double quantile_double h (row # rows) =
               Inr (Some (S ! nat (\<lceil>dvalue (dmul (int_to_double (int (length S))) p)\<rceil> - 1))) \<and>
             aggregate quantile_append_double_array quantile_double_array h (arow # arows) =
               Inr (Some [S ! nat (\<lceil>dvalue (dmul (int_to_double (int (length S))) p)\<rceil> - 1)]))"
  proof
    assume as: "present (row # rows) \<noteq> [] \<and> NaN \<notin> set (present (row # rows)) \<and>
       int (length (present (row # rows))) \<le> max_capacity 8 \<and> snd row = p \<and>
       present (arow # arows) = present (row # rows) \<and> snd arow = float8_array [p]"
    define vals where "vals = present (row # rows)"
    define S where "S = qsort double_comparator vals"
    define k where "k = \<lceil>dvalue (dmul (int_to_double (int (length S))) p)\<rceil> - 1"
    from as have ne: "present (row # rows) \<noteq> []" and nn: "NaN \<notin> set vals"
      and cap: "int (length (present (row # rows))) \<le> max_capacity 8"
      and rp: "snd row = p"
      and av: "present (arow # arows) = present (row # rows)" and ar: "snd arow = float8_array [p]"
      by (simp_all add: vals_def)
    have len: "length S = length (present (row # rows))" by (simp add: S_def vals_def length_qsort)
    have n1: "1 \<le> int (length S)" using ne len by (cases "present (row # rows)") simp_all
    have n2: "int (length S) < 2 ^ 31" using max_capacity_8_bound[OF cap] len by simp
    have nr: "nearest_rank (int (length S)) p = k" using p(2,3) by (simp add: nearest_rank_def k_def)
    have rng: "0 \<le> k" "k < int (length S)"
      using nearest_rank_in_range[OF n1 n2 p(1) pn] nr by simp_all
    have sc: "aggregate quantile_append_double quantile_double h (row # rows) = Inr (Some (S ! nat k))"
      using aggregate_double_result[OF cap ne, of h] p rp nr
      by (simp add: S_def vals_def length_qsort)
    have va: "AllocSizeIsValid (int (length [p]) * 8)"
      by (simp add: AllocSizeIsValid_def MaxAllocSize_def)
    have okq: "list_all (\<lambda>q. is_double q \<and> q \<noteq> NaN) [p]" using p(1) pn by simp
    have cap': "int (length (present (arow # arows))) \<le> max_capacity 8" using cap av by simp
    have ne': "present (arow # arows) \<noteq> []" using ne av by simp
    have S': "S = qsort double_comparator (present (arow # arows))" by (simp add: S_def vals_def av)
    have arr: "aggregate quantile_append_double_array quantile_double_array h (arow # arows) =
        Inr (Some [S ! nat k])"
      using aggregate_array_aligned[OF elsize_8 elsize_8_le cap' ar va okq ne' S',
          of "''quantile_append_double_array''" "''quantile_double_array''" h] nr
      by (simp add: quantile_append_double_array_def quantile_double_array_def)
    have ms: "mset S = mset (present (row # rows))" by (simp add: S_def vals_def mset_qsort)
    have so: "sorted_wrt dle S" using qsort_double_sorted[OF nn] by (simp add: S_def)
    from ms so rng sc arr show "(\<exists>S. mset S = mset (present (row # rows)) \<and> sorted_wrt dle S \<and>
             0 \<le> \<lceil>dvalue (dmul (int_to_double (int (length S))) p)\<rceil> - 1 \<and>
             \<lceil>dvalue (dmul (int_to_double (int (length S))) p)\<rceil> - 1 < int (length S) \<and>
             aggregate quantile_append_double quantile_double h (row # rows) =
               Inr (Some (S ! nat (\<lceil>dvalue (dmul (int_to_double (int (length S))) p)\<rceil> - 1))) \<and>
             aggregate quantile_append_double_array quantile_double_array h (arow # arows) =
               Inr (Some [S ! nat (\<lceil>dvalue (dmul (int_to_double (int (length S))) p)\<rceil> - 1)]))"
      unfolding k_def by blast
  qed
  have c1: "present (irow # irows) \<noteq> [] \<and> int (length (present (irow # irows))) \<le> max_capacity 4 \<and>
       snd irow = p \<longrightarrow>
        (\<exists>S. mset S = mset (present (irow # irows)) \<and> sorted (map sint S) \<and>
             0 \<le> \<lceil>dvalue (dmul (int_to_double (int (length S))) p)\<rceil> - 1 \<and>
             \<lceil>dvalue (dmul (int_to_double (int (length S))) p)\<rceil> - 1 < int (length S) \<and>
             aggregate quantile_append_int32 quantile_int32 h32 (irow # irows) =
               Inr (Some (S ! nat (\<lceil>dvalue (dmul (int_to_double (int (length S))) p)\<rceil> - 1))))"
  proof
    assume as: "present (irow # irows) \<noteq> [] \<and> int (length (present (irow # irows))) \<le> max_capacity 4 \<and>
       snd irow = p"
    define S where "S = qsort int32_comparator (present (irow # irows))"
    define k where "k = \<lceil>dvalue (dmul (int_to_double (int (length S))) p)\<rceil> - 1"
    from as have ne: "present (irow # irows) \<noteq> []"
      and cap: "int (length (present (irow # irows))) \<le> max_capacity 4"
      and rp: "snd irow = p" by simp_all
    have len: "length S = length (present (irow # irows))" by (simp add: S_def length_qsort)
    have n1: "1 \<le> int (length S)" using ne len by (cases "present (irow # irows)") simp_all
    have n2: "int (length S) < 2 ^ 31" using max_capacity_bound[OF cap] len by simp
    have nr: "nearest_rank (int (length S)) p = k" using p(2,3) by (simp add: nearest_rank_def k_def)
    have rng: "0 \<le> k" "k < int (length S)"
      using nearest_rank_in_range[OF n1 n2 p(1) pn] nr by simp_all
    have sc: "aggregate quantile_append_int32 quantile_int32 h32 (irow # irows) = Inr (Some (S ! nat k))"
      using aggregate_scalar_result[OF elsize_4(1,2) cap ne, of "''quantile_append_int32''" "''quantile_int32''" int32_comparator h32] p rp nr
      by (simp add: S_def length_qsort quantile_append_int32_def quantile_int32_def)
    have ms: "mset S = mset (present (irow # irows))" by (simp add: S_def mset_qsort)
    have so: "sorted (map sint S)" using qsort_int32_sorted[of "present (irow # irows)"] by (simp add: S_def)
    from ms so rng sc show "(\<exists>S. mset S = mset (present (irow # irows)) \<and> sorted (map sint S) \<and>
             0 \<le> \<lceil>dvalue (dmul (int_to_double (int (length S))) p)\<rceil> - 1 \<and>
             \<lceil>dvalue (dmul (int_to_double (int (length S))) p)\<rceil> - 1 < int (length S) \<and>
             aggregate quantile_append_int32 quantile_int32 h32 (irow # irows) =
               Inr (Some (S ! nat (\<lceil>dvalue (dmul (int_to_double (int (length S))) p)\<rceil> - 1))))"
      unfolding k_def by blast
  qed
  have c2: "present (lrow # lrows) \<noteq> [] \<and> int (length (present (lrow # lrows))) \<le> max_capacity 8 \<and>
       snd lrow = p \<longrightarrow>
        (\<exists>S. mset S = mset (present (lrow # lrows)) \<and> sorted (map sint S) \<and>
             0 \<le> \<lceil>dvalue (dmul (int_to_double (int (length S))) p)\<rceil> - 1 \<and>
             \<lceil>dvalue (dmul (int_to_double (int (length S))) p)\<rceil> - 1 < int (length S) \<and>
             aggregate quantile_append_int64 quantile_int64 h64 (lrow # lrows) =
               Inr (Some (S ! nat (\<lceil>dvalue (dmul (int_to_double (int (length S))) p)\<rceil> - 1))))"
  proof
    assume as: "present (lrow # lrows) \<noteq> [] \<and> int (length (present (lrow # lrows))) \<le> max_capacity 8 \<and>
       snd lrow = p"
    define S where "S = qsort int64_comparator (present (lrow # lrows))"
    define k where "k = \<lceil>dvalue (dmul (int_to_double (int (length S))) p)\<rceil> - 1"
    from as have ne: "present (lrow # lrows) \<noteq> []"
      and cap: "int (length (present (lrow # lrows))) \<le> max_capacity 8"
      and rp: "snd lrow = p" by simp_all
    have len: "length S = length (present (lrow # lrows))" by (simp add: S_def length_qsort)
    have n1: "1 \<le> int (length S)" using ne len by (cases "present (lrow # lrows)") simp_all
    have n2: "int (length S) < 2 ^ 31" using max_capacity_bound[OF cap] len by simp
    have nr: "nearest_rank (int (length S)) p = k" using p(2,3) by (simp add: nearest_rank_def k_def)
    have rng: "0 \<le> k" "k < int (length S)"
      using nearest_rank_in_range[OF n1 n2 p(1) pn] nr by simp_all
    have sc: "aggregate quantile_append_int64 quantile_int64 h64 (lrow # lrows) = Inr (Some (S ! nat k))"
      using aggregate_scalar_result[OF elsize_8 cap ne, of "''quantile_append_int64''" "''quantile_int64''" int64_comparator h64] p rp nr
      by (simp add: S_def length_qsort quantile_append_int64_def quantile_int64_def)
    have ms: "mset S = mset (present (lrow # lrows))" by (simp add: S_def mset_qsort)
    have so: "sorted (map sint S)" using qsort_int64_sorted[of "present (lrow # lrows)"] by (simp add: S_def)
    from ms so rng sc show "(\<exists>S. mset S = mset (present (lrow # lrows)) \<and> sorted (map sint S) \<and>
             0 \<le> \<lceil>dvalue (dmul (int_to_double (int (length S))) p)\<rceil> - 1 \<and>
             \<lceil>dvalue (dmul (int_to_double (int (length S))) p)\<rceil> - 1 < int (length S) \<and>
             aggregate quantile_append_int64 quantile_int64 h64 (lrow # lrows) =
               Inr (Some (S ! nat (\<lceil>dvalue (dmul (int_to_double (int (length S))) p)\<rceil> - 1))))"
      unfolding k_def by blast
  qed
  from c0 c1 c2 show "(present (row # rows) \<noteq> [] \<and> NaN \<notin> set (present (row # rows)) \<and>
       int (length (present (row # rows))) \<le> max_capacity 8 \<and> snd row = p \<and>
       present (arow # arows) = present (row # rows) \<and> snd arow = float8_array [p] \<longrightarrow>
        (\<exists>S. mset S = mset (present (row # rows)) \<and> sorted_wrt dle S \<and>
             0 \<le> \<lceil>dvalue (dmul (int_to_double (int (length S))) p)\<rceil> - 1 \<and>
             \<lceil>dvalue (dmul (int_to_double (int (length S))) p)\<rceil> - 1 < int (length S) \<and>
             aggregate quantile_append_double quantile_double h (row # rows) =
               Inr (Some (S ! nat (\<lceil>dvalue (dmul (int_to_double (int (length S))) p)\<rceil> - 1))) \<and>
             aggregate quantile_append_double_array quantile_double_array h (arow # arows) =
               Inr (Some [S ! nat (\<lceil>dvalue (dmul (int_to_double (int (length S))) p)\<rceil> - 1)]))) \<and>
       (present (irow # irows) \<noteq> [] \<and> int (length (present (irow # irows))) \<le> max_capacity 4 \<and>
       snd irow = p \<longrightarrow>
        (\<exists>S. mset S = mset (present (irow # irows)) \<and> sorted (map sint S) \<and>
             0 \<le> \<lceil>dvalue (dmul (int_to_double (int (length S))) p)\<rceil> - 1 \<and>
             \<lceil>dvalue (dmul (int_to_double (int (length S))) p)\<rceil> - 1 < int (length S) \<and>
             aggregate quantile_append_int32 quantile_int32 h32 (irow # irows) =
               Inr (Some (S ! nat (\<lceil>dvalue (dmul (int_to_double (int (length S))) p)\<rceil> - 1))))) \<and>
       (present (lrow # lrows) \<noteq> [] \<and> int (length (present (lrow # lrows))) \<le> max_capacity 8 \<and>
       snd lrow = p \<longrightarrow>
        (\<exists>S. mset S = mset (present (lrow # lrows)) \<and> sorted (map sint S) \<and>
             0 \<le> \<lceil>dvalue (dmul (int_to_double (int (length S))) p)\<rceil> - 1 \<and>
             \<lceil>dvalue (dmul (int_to_double (int (length S))) p)\<rceil> - 1 < int (length S) \<and>
             aggregate quantile_append_int64 quantile_int64 h64 (lrow # lrows) =
               Inr (Some (S ! nat (\<lceil>dvalue (dmul (int_to_double (int (length S))) p)\<rceil> - 1)))))" by (intro conjI)
qed

theorem finalize_nearest_rank_witness:
  "is_double (Finite (1 / 2)) \<and> dless (Finite 0) (Finite (1 / 2)) \<and>
   dless (Finite (1 / 2)) (Finite 1) \<and>
   (\<exists>S. mset S = mset [Finite 40, Finite 20, Finite 30, Finite 10] \<and> sorted_wrt dle S \<and>
        aggregate quantile_append_double quantile_double [] [(Some (Finite 40), Finite (1 / 2)), (Some (Finite 20), Finite (1 / 2)), (Some (Finite 30), Finite (1 / 2)), (Some (Finite 10), Finite (1 / 2))] =
          Inr (Some (S ! nat (\<lceil>dvalue (dmul (int_to_double (int (length S))) (Finite (1 / 2)))\<rceil> - 1)))) \<and>
   aggregate quantile_append_double quantile_double [] [(Some (Finite 40), Finite (1 / 2)), (Some (Finite 20), Finite (1 / 2)), (Some (Finite 30), Finite (1 / 2)), (Some (Finite 10), Finite (1 / 2))] =
     Inr (Some (Finite 20)) \<and>
   (\<exists>S. mset S = mset [3 :: 32 word, - 1, 2] \<and> sorted (map sint S) \<and>
        aggregate quantile_append_int32 quantile_int32 [] [(Some (3 :: 32 word), Finite (1 / 2)), (Some (- 1), Finite (1 / 2)), (Some (2), Finite (1 / 2))] =
          Inr (Some (S ! nat (\<lceil>dvalue (dmul (int_to_double (int (length S))) (Finite (1 / 2)))\<rceil> - 1)))) \<and>
   aggregate quantile_append_int32 quantile_int32 [] [(Some (3 :: 32 word), Finite (1 / 2)), (Some (- 1), Finite (1 / 2)), (Some (2), Finite (1 / 2))] = Inr (Some 2) \<and>
   (\<exists>S. mset S = mset [7 :: 64 word, 5] \<and> sorted (map sint S) \<and>
        aggregate quantile_append_int64 quantile_int64 [] [(Some (7 :: 64 word), Finite (1 / 2)), (Some (5), Finite (1 / 2))] =
          Inr (Some (S ! nat (\<lceil>dvalue (dmul (int_to_double (int (length S))) (Finite (1 / 2)))\<rceil> - 1)))) \<and>
   aggregate quantile_append_int64 quantile_int64 [] [(Some (7 :: 64 word), Finite (1 / 2)), (Some (5), Finite (1 / 2))] = Inr (Some 5)"
proof -
  let ?p = "Finite (1 / 2)"
  let ?row = "(Some (Finite 40), ?p)"
  let ?rows = "[(Some (Finite 20), ?p), (Some (Finite 30), ?p), (Some (Finite 10), ?p)]"
  let ?arow = "(Some (Finite 40), float8_array [?p])"
  let ?arows = "[(Some (Finite 20), float8_array [?p]), (Some (Finite 30), float8_array [?p]), (Some (Finite 10), float8_array [?p])]"
  let ?irow = "(Some (3 :: 32 word), ?p)"
  let ?irows = "[(Some (- 1), ?p), (Some (2), ?p)]"
  let ?lrow = "(Some (7 :: 64 word), ?p)"
  let ?lrows = "[(Some (5), ?p)]"
  have d: "is_double ?p" by code_simp
  have c: "dless (Finite 0) ?p" "dless ?p (Finite 1)" by (simp_all add: dless_def)
  have ph: "is_double ?p \<and> dless (Finite 0) ?p \<and> dless ?p (Finite 1)" using d c by simp
  have h0: "present (?row # ?rows) \<noteq> [] \<and> NaN \<notin> set (present (?row # ?rows)) \<and>
       int (length (present (?row # ?rows))) \<le> max_capacity 8 \<and> snd ?row = ?p \<and>
       present (?arow # ?arows) = present (?row # ?rows) \<and> snd ?arow = float8_array [?p]"
    by (simp add: max_capacity_def SLICE_SIZE_def MaxAllocSize_def)
  have h1: "present (?irow # ?irows) \<noteq> [] \<and> int (length (present (?irow # ?irows))) \<le> max_capacity 4 \<and>
       snd ?irow = ?p"
    by (simp add: max_capacity_def SLICE_SIZE_def MaxAllocSize_def)
  have h2: "present (?lrow # ?lrows) \<noteq> [] \<and> int (length (present (?lrow # ?lrows))) \<le> max_capacity 8 \<and>
       snd ?lrow = ?p"
    by (simp add: max_capacity_def SLICE_SIZE_def MaxAllocSize_def)
  note T = finalize_nearest_rank[where p = ?p and row = ?row and rows = ?rows and arow = ?arow
      and arows = ?arows and irow = ?irow and irows = ?irows and lrow = ?lrow and lrows = ?lrows
      and h = "[]" and ?h32.0 = "[]" and ?h64.0 = "[]", THEN mp, OF ph]
  from T[THEN conjunct1, THEN mp, OF h0]
  have a: "\<exists>S. mset S = mset [Finite 40, Finite 20, Finite 30, Finite 10] \<and> sorted_wrt dle S \<and>
        aggregate quantile_append_double quantile_double [] (?row # ?rows) =
          Inr (Some (S ! nat (\<lceil>dvalue (dmul (int_to_double (int (length S))) ?p)\<rceil> - 1)))"
    by auto
  from T[THEN conjunct2, THEN conjunct1, THEN mp, OF h1]
  have b: "\<exists>S. mset S = mset [3 :: 32 word, - 1, 2] \<and> sorted (map sint S) \<and>
        aggregate quantile_append_int32 quantile_int32 [] (?irow # ?irows) =
          Inr (Some (S ! nat (\<lceil>dvalue (dmul (int_to_double (int (length S))) ?p)\<rceil> - 1)))"
    by auto
  from T[THEN conjunct2, THEN conjunct2, THEN mp, OF h2]
  have e: "\<exists>S. mset S = mset [7 :: 64 word, 5] \<and> sorted (map sint S) \<and>
        aggregate quantile_append_int64 quantile_int64 [] (?lrow # ?lrows) =
          Inr (Some (S ! nat (\<lceil>dvalue (dmul (int_to_double (int (length S))) ?p)\<rceil> - 1)))"
    by auto
  have ea: "aggregate quantile_append_double quantile_double [] (?row # ?rows) =
      Inr (Some (Finite 20))" by code_simp
  have eb: "aggregate quantile_append_int32 quantile_int32 [] (?irow # ?irows) = Inr (Some 2)"
    by code_simp
  have ee: "aggregate quantile_append_int64 quantile_int64 [] (?lrow # ?lrows) = Inr (Some 5)"
    by code_simp
  from d c a ea b eb e ee show ?thesis by (intro conjI)
qed

text \<open>
  Claim C5 says that the array final function returns, for each of the \<open>k\<close> requested
  probabilities and in the order of the request, the value the nearest-rank rule selects
  for that probability alone. A probability that is a NaN satisfies none of the three
  comparisons of the loop, so that the index of the iteration before it (or 0 at the
  first iteration) is used again: after the probability 3/4 the NaN gives the value 30,
  after 1/4 it gives 10, over the same values.
\<close>

theorem nan_probability_repeats_previous_index:
  "aggregate quantile_append_double_array quantile_double_array []
     [(Some (Finite 10), float8_array [Finite (3 / 4), NaN]), (Some (Finite 20), float8_array []),
      (Some (Finite 30), float8_array []), (Some (Finite 40), float8_array [])] =
     Inr (Some [Finite 30, Finite 30]) \<and>
   aggregate quantile_append_double_array quantile_double_array []
     [(Some (Finite 10), float8_array [Finite (1 / 4), NaN]), (Some (Finite 20), float8_array []),
      (Some (Finite 30), float8_array []), (Some (Finite 40), float8_array [])] =
     Inr (Some [Finite 10, Finite 10])"
  by code_simp

text \<open>
  Claim C5, amended. For a request of \<open>k\<close> probabilities none of which is a NaN, and a
  group with at least one value (and no more than the allocator can hold), the array
  final function returns exactly \<open>k\<close> values, in the order of the request, and the
  \<open>i\<close>-th is the element of the sorted values at the index the nearest-rank rule (with its
  clamps, the product taken in double precision) gives for the \<open>i\<close>-th probability alone;
  every such index is within the values. This holds for \<^verbatim>\<open>quantile_double_array\<close>,
  \<^verbatim>\<open>quantile_int32_array\<close> and \<^verbatim>\<open>quantile_int64_array\<close>. \<open>S\<close> is the array after \<^verbatim>\<open>qsort\<close>:
  a permutation of the values, ascending for the integer types and, when no value is a
  NaN, for doubles.
\<close>

theorem array_finalize_aligned:
  "AllocSizeIsValid (int (length qs) * 8) \<and> list_all (\<lambda>q. is_double q \<and> q \<noteq> NaN) qs \<longrightarrow>
       (present (row # rows) \<noteq> [] \<and> int (length (present (row # rows))) \<le> max_capacity 8 \<and>
       snd row = float8_array qs \<longrightarrow>
        (\<exists>S. mset S = mset (present (row # rows)) \<and> (NaN \<notin> set (present (row # rows)) \<longrightarrow> sorted_wrt dle S) \<and>
             aggregate quantile_append_double_array quantile_double_array h (row # rows) =
               Inr (Some (map (\<lambda>q. S ! nat (nearest_rank (int (length S)) q)) qs)) \<and>
             list_all (\<lambda>q. 0 \<le> nearest_rank (int (length S)) q \<and>
                           nearest_rank (int (length S)) q < int (length S)) qs)) \<and>
       (present (irow # irows) \<noteq> [] \<and> int (length (present (irow # irows))) \<le> max_capacity 4 \<and>
       snd irow = float8_array qs \<longrightarrow>
        (\<exists>S. mset S = mset (present (irow # irows)) \<and> sorted (map sint S) \<and>
             aggregate quantile_append_int32_array quantile_int32_array h32 (irow # irows) =
               Inr (Some (map (\<lambda>q. S ! nat (nearest_rank (int (length S)) q)) qs)) \<and>
             list_all (\<lambda>q. 0 \<le> nearest_rank (int (length S)) q \<and>
                           nearest_rank (int (length S)) q < int (length S)) qs)) \<and>
       (present (lrow # lrows) \<noteq> [] \<and> int (length (present (lrow # lrows))) \<le> max_capacity 8 \<and>
       snd lrow = float8_array qs \<longrightarrow>
        (\<exists>S. mset S = mset (present (lrow # lrows)) \<and> sorted (map sint S) \<and>
             aggregate quantile_append_int64_array quantile_int64_array h64 (lrow # lrows) =
               Inr (Some (map (\<lambda>q. S ! nat (nearest_rank (int (length S)) q)) qs)) \<and>
             list_all (\<lambda>q. 0 \<le> nearest_rank (int (length S)) q \<and>
                           nearest_rank (int (length S)) q < int (length S)) qs))"
proof
  assume q: "AllocSizeIsValid (int (length qs) * 8) \<and> list_all (\<lambda>q. is_double q \<and> q \<noteq> NaN) qs"
  then have va: "AllocSizeIsValid (int (length qs) * 8)"
    and okq: "list_all (\<lambda>q. is_double q \<and> q \<noteq> NaN) qs" by simp_all
  have c0: "present (row # rows) \<noteq> [] \<and> int (length (present (row # rows))) \<le> max_capacity 8 \<and>
       snd row = float8_array qs \<longrightarrow>
        (\<exists>S. mset S = mset (present (row # rows)) \<and> (NaN \<notin> set (present (row # rows)) \<longrightarrow> sorted_wrt dle S) \<and>
             aggregate quantile_append_double_array quantile_double_array h (row # rows) =
               Inr (Some (map (\<lambda>q. S ! nat (nearest_rank (int (length S)) q)) qs)) \<and>
             list_all (\<lambda>q. 0 \<le> nearest_rank (int (length S)) q \<and>
                           nearest_rank (int (length S)) q < int (length S)) qs)"
  proof
    assume as: "present (row # rows) \<noteq> [] \<and> int (length (present (row # rows))) \<le> max_capacity 8 \<and>
       snd row = float8_array qs"
    define S where "S = qsort double_comparator (present (row # rows))"
    from as have ne: "present (row # rows) \<noteq> []"
      and cap: "int (length (present (row # rows))) \<le> max_capacity 8"
      and rq: "snd row = float8_array qs" by simp_all
    have ms: "mset S = mset (present (row # rows))" by (simp add: S_def mset_qsort)
    have so: "(NaN \<notin> set (present (row # rows)) \<longrightarrow> sorted_wrt dle S)"
      using qsort_double_sorted[of "present (row # rows)"] by (simp add: S_def)
    from aggregate_array_aligned[OF elsize_8 elsize_8_le cap rq va okq ne S_def,
        of "''quantile_append_double_array''" "''quantile_double_array''" h]
    have ag: "aggregate quantile_append_double_array quantile_double_array h (row # rows) =
               Inr (Some (map (\<lambda>q. S ! nat (nearest_rank (int (length S)) q)) qs))"
      and rg: "list_all (\<lambda>q. 0 \<le> nearest_rank (int (length S)) q \<and>
                           nearest_rank (int (length S)) q < int (length S)) qs"
      by (simp_all add: quantile_append_double_array_def quantile_double_array_def)
    from ms so ag rg show "(\<exists>S. mset S = mset (present (row # rows)) \<and> (NaN \<notin> set (present (row # rows)) \<longrightarrow> sorted_wrt dle S) \<and>
             aggregate quantile_append_double_array quantile_double_array h (row # rows) =
               Inr (Some (map (\<lambda>q. S ! nat (nearest_rank (int (length S)) q)) qs)) \<and>
             list_all (\<lambda>q. 0 \<le> nearest_rank (int (length S)) q \<and>
                           nearest_rank (int (length S)) q < int (length S)) qs)" by blast
  qed
  have c1: "present (irow # irows) \<noteq> [] \<and> int (length (present (irow # irows))) \<le> max_capacity 4 \<and>
       snd irow = float8_array qs \<longrightarrow>
        (\<exists>S. mset S = mset (present (irow # irows)) \<and> sorted (map sint S) \<and>
             aggregate quantile_append_int32_array quantile_int32_array h32 (irow # irows) =
               Inr (Some (map (\<lambda>q. S ! nat (nearest_rank (int (length S)) q)) qs)) \<and>
             list_all (\<lambda>q. 0 \<le> nearest_rank (int (length S)) q \<and>
                           nearest_rank (int (length S)) q < int (length S)) qs)"
  proof
    assume as: "present (irow # irows) \<noteq> [] \<and> int (length (present (irow # irows))) \<le> max_capacity 4 \<and>
       snd irow = float8_array qs"
    define S where "S = qsort int32_comparator (present (irow # irows))"
    from as have ne: "present (irow # irows) \<noteq> []"
      and cap: "int (length (present (irow # irows))) \<le> max_capacity 4"
      and rq: "snd irow = float8_array qs" by simp_all
    have ms: "mset S = mset (present (irow # irows))" by (simp add: S_def mset_qsort)
    have so: "sorted (map sint S)"
      using qsort_int32_sorted[of "present (irow # irows)"] by (simp add: S_def)
    from aggregate_array_aligned[OF elsize_4 cap rq va okq ne S_def,
        of "''quantile_append_int32_array''" "''quantile_int32_array''" h32]
    have ag: "aggregate quantile_append_int32_array quantile_int32_array h32 (irow # irows) =
               Inr (Some (map (\<lambda>q. S ! nat (nearest_rank (int (length S)) q)) qs))"
      and rg: "list_all (\<lambda>q. 0 \<le> nearest_rank (int (length S)) q \<and>
                           nearest_rank (int (length S)) q < int (length S)) qs"
      by (simp_all add: quantile_append_int32_array_def quantile_int32_array_def)
    from ms so ag rg show "(\<exists>S. mset S = mset (present (irow # irows)) \<and> sorted (map sint S) \<and>
             aggregate quantile_append_int32_array quantile_int32_array h32 (irow # irows) =
               Inr (Some (map (\<lambda>q. S ! nat (nearest_rank (int (length S)) q)) qs)) \<and>
             list_all (\<lambda>q. 0 \<le> nearest_rank (int (length S)) q \<and>
                           nearest_rank (int (length S)) q < int (length S)) qs)" by blast
  qed
  have c2: "present (lrow # lrows) \<noteq> [] \<and> int (length (present (lrow # lrows))) \<le> max_capacity 8 \<and>
       snd lrow = float8_array qs \<longrightarrow>
        (\<exists>S. mset S = mset (present (lrow # lrows)) \<and> sorted (map sint S) \<and>
             aggregate quantile_append_int64_array quantile_int64_array h64 (lrow # lrows) =
               Inr (Some (map (\<lambda>q. S ! nat (nearest_rank (int (length S)) q)) qs)) \<and>
             list_all (\<lambda>q. 0 \<le> nearest_rank (int (length S)) q \<and>
                           nearest_rank (int (length S)) q < int (length S)) qs)"
  proof
    assume as: "present (lrow # lrows) \<noteq> [] \<and> int (length (present (lrow # lrows))) \<le> max_capacity 8 \<and>
       snd lrow = float8_array qs"
    define S where "S = qsort int64_comparator (present (lrow # lrows))"
    from as have ne: "present (lrow # lrows) \<noteq> []"
      and cap: "int (length (present (lrow # lrows))) \<le> max_capacity 8"
      and rq: "snd lrow = float8_array qs" by simp_all
    have ms: "mset S = mset (present (lrow # lrows))" by (simp add: S_def mset_qsort)
    have so: "sorted (map sint S)"
      using qsort_int64_sorted[of "present (lrow # lrows)"] by (simp add: S_def)
    from aggregate_array_aligned[OF elsize_8 elsize_8_le cap rq va okq ne S_def,
        of "''quantile_append_int64_array''" "''quantile_int64_array''" h64]
    have ag: "aggregate quantile_append_int64_array quantile_int64_array h64 (lrow # lrows) =
               Inr (Some (map (\<lambda>q. S ! nat (nearest_rank (int (length S)) q)) qs))"
      and rg: "list_all (\<lambda>q. 0 \<le> nearest_rank (int (length S)) q \<and>
                           nearest_rank (int (length S)) q < int (length S)) qs"
      by (simp_all add: quantile_append_int64_array_def quantile_int64_array_def)
    from ms so ag rg show "(\<exists>S. mset S = mset (present (lrow # lrows)) \<and> sorted (map sint S) \<and>
             aggregate quantile_append_int64_array quantile_int64_array h64 (lrow # lrows) =
               Inr (Some (map (\<lambda>q. S ! nat (nearest_rank (int (length S)) q)) qs)) \<and>
             list_all (\<lambda>q. 0 \<le> nearest_rank (int (length S)) q \<and>
                           nearest_rank (int (length S)) q < int (length S)) qs)" by blast
  qed
  from c0 c1 c2 show "(present (row # rows) \<noteq> [] \<and> int (length (present (row # rows))) \<le> max_capacity 8 \<and>
       snd row = float8_array qs \<longrightarrow>
        (\<exists>S. mset S = mset (present (row # rows)) \<and> (NaN \<notin> set (present (row # rows)) \<longrightarrow> sorted_wrt dle S) \<and>
             aggregate quantile_append_double_array quantile_double_array h (row # rows) =
               Inr (Some (map (\<lambda>q. S ! nat (nearest_rank (int (length S)) q)) qs)) \<and>
             list_all (\<lambda>q. 0 \<le> nearest_rank (int (length S)) q \<and>
                           nearest_rank (int (length S)) q < int (length S)) qs)) \<and>
       (present (irow # irows) \<noteq> [] \<and> int (length (present (irow # irows))) \<le> max_capacity 4 \<and>
       snd irow = float8_array qs \<longrightarrow>
        (\<exists>S. mset S = mset (present (irow # irows)) \<and> sorted (map sint S) \<and>
             aggregate quantile_append_int32_array quantile_int32_array h32 (irow # irows) =
               Inr (Some (map (\<lambda>q. S ! nat (nearest_rank (int (length S)) q)) qs)) \<and>
             list_all (\<lambda>q. 0 \<le> nearest_rank (int (length S)) q \<and>
                           nearest_rank (int (length S)) q < int (length S)) qs)) \<and>
       (present (lrow # lrows) \<noteq> [] \<and> int (length (present (lrow # lrows))) \<le> max_capacity 8 \<and>
       snd lrow = float8_array qs \<longrightarrow>
        (\<exists>S. mset S = mset (present (lrow # lrows)) \<and> sorted (map sint S) \<and>
             aggregate quantile_append_int64_array quantile_int64_array h64 (lrow # lrows) =
               Inr (Some (map (\<lambda>q. S ! nat (nearest_rank (int (length S)) q)) qs)) \<and>
             list_all (\<lambda>q. 0 \<le> nearest_rank (int (length S)) q \<and>
                           nearest_rank (int (length S)) q < int (length S)) qs))" by (intro conjI)
qed

theorem array_finalize_aligned_witness:
  "list_all (\<lambda>q. is_double q \<and> q \<noteq> NaN) [Finite (1 / 4), Finite (1 / 2), Finite (3 / 4)] \<and>
   aggregate quantile_append_double_array quantile_double_array []
     [(Some (Finite 40), float8_array [Finite (1 / 4), Finite (1 / 2), Finite (3 / 4)]),
      (Some (Finite 20), float8_array [Finite (1 / 4), Finite (1 / 2), Finite (3 / 4)]),
      (Some (Finite 30), float8_array [Finite (1 / 4), Finite (1 / 2), Finite (3 / 4)]),
      (Some (Finite 10), float8_array [Finite (1 / 4), Finite (1 / 2), Finite (3 / 4)])] =
     Inr (Some [Finite 10, Finite 20, Finite 30]) \<and>
   (\<exists>S. mset S = mset [Finite 40, Finite 20, Finite 30, Finite 10] \<and> sorted_wrt dle S \<and>
        aggregate quantile_append_double_array quantile_double_array []
     [(Some (Finite 40), float8_array [Finite (1 / 4), Finite (1 / 2), Finite (3 / 4)]),
      (Some (Finite 20), float8_array [Finite (1 / 4), Finite (1 / 2), Finite (3 / 4)]),
      (Some (Finite 30), float8_array [Finite (1 / 4), Finite (1 / 2), Finite (3 / 4)]),
      (Some (Finite 10), float8_array [Finite (1 / 4), Finite (1 / 2), Finite (3 / 4)])] =
        Inr (Some (map (\<lambda>q. S ! nat (nearest_rank (int (length S)) q)) [Finite (1 / 4), Finite (1 / 2), Finite (3 / 4)]))) \<and>
   (\<exists>S. mset S = mset [3 :: 32 word, - 1, 2] \<and> sorted (map sint S) \<and>
        aggregate quantile_append_int32_array quantile_int32_array []
     [(Some (3 :: 32 word), float8_array [Finite (1 / 4), Finite (1 / 2), Finite (3 / 4)]),
      (Some (- 1), float8_array [Finite (1 / 4), Finite (1 / 2), Finite (3 / 4)]),
      (Some (2), float8_array [Finite (1 / 4), Finite (1 / 2), Finite (3 / 4)])] =
        Inr (Some (map (\<lambda>q. S ! nat (nearest_rank (int (length S)) q)) [Finite (1 / 4), Finite (1 / 2), Finite (3 / 4)]))) \<and>
   (\<exists>S. mset S = mset [7 :: 64 word, 5] \<and> sorted (map sint S) \<and>
        aggregate quantile_append_int64_array quantile_int64_array []
     [(Some (7 :: 64 word), float8_array [Finite (1 / 4), Finite (1 / 2), Finite (3 / 4)]),
      (Some (5), float8_array [Finite (1 / 4), Finite (1 / 2), Finite (3 / 4)])] =
        Inr (Some (map (\<lambda>q. S ! nat (nearest_rank (int (length S)) q)) [Finite (1 / 4), Finite (1 / 2), Finite (3 / 4)])))"
proof -
  let ?qs = "[Finite (1 / 4), Finite (1 / 2), Finite (3 / 4)]"
  let ?a = "float8_array ?qs"
  let ?row = "(Some (Finite 40), ?a)"
  let ?rows = "[(Some (Finite 20), ?a), (Some (Finite 30), ?a), (Some (Finite 10), ?a)]"
  let ?irow = "(Some (3 :: 32 word), ?a)"
  let ?irows = "[(Some (- 1), ?a), (Some (2), ?a)]"
  let ?lrow = "(Some (7 :: 64 word), ?a)"
  let ?lrows = "[(Some (5), ?a)]"
  have q: "list_all (\<lambda>q. is_double q \<and> q \<noteq> NaN) ?qs" by code_simp
  have qh: "AllocSizeIsValid (int (length ?qs) * 8) \<and> list_all (\<lambda>q. is_double q \<and> q \<noteq> NaN) ?qs"
    using q by (simp add: AllocSizeIsValid_def MaxAllocSize_def)
  have h0: "present (?row # ?rows) \<noteq> [] \<and> int (length (present (?row # ?rows))) \<le> max_capacity 8 \<and>
       snd ?row = float8_array ?qs"
    by (simp add: max_capacity_def SLICE_SIZE_def MaxAllocSize_def)
  have h1: "present (?irow # ?irows) \<noteq> [] \<and> int (length (present (?irow # ?irows))) \<le> max_capacity 4 \<and>
       snd ?irow = float8_array ?qs"
    by (simp add: max_capacity_def SLICE_SIZE_def MaxAllocSize_def)
  have h2: "present (?lrow # ?lrows) \<noteq> [] \<and> int (length (present (?lrow # ?lrows))) \<le> max_capacity 8 \<and>
       snd ?lrow = float8_array ?qs"
    by (simp add: max_capacity_def SLICE_SIZE_def MaxAllocSize_def)
  note T = array_finalize_aligned[where qs = ?qs and row = ?row and rows = ?rows
      and irow = ?irow and irows = ?irows and lrow = ?lrow and lrows = ?lrows
      and h = "[]" and ?h32.0 = "[]" and ?h64.0 = "[]", THEN mp, OF qh]
  from T[THEN conjunct1, THEN mp, OF h0]
  have a: "\<exists>S. mset S = mset [Finite 40, Finite 20, Finite 30, Finite 10] \<and> sorted_wrt dle S \<and>
        aggregate quantile_append_double_array quantile_double_array [] (?row # ?rows) =
        Inr (Some (map (\<lambda>q. S ! nat (nearest_rank (int (length S)) q)) ?qs))"
    by auto
  from T[THEN conjunct2, THEN conjunct1, THEN mp, OF h1]
  have b: "\<exists>S. mset S = mset [3 :: 32 word, - 1, 2] \<and> sorted (map sint S) \<and>
        aggregate quantile_append_int32_array quantile_int32_array [] (?irow # ?irows) =
        Inr (Some (map (\<lambda>q. S ! nat (nearest_rank (int (length S)) q)) ?qs))"
    by auto
  from T[THEN conjunct2, THEN conjunct2, THEN mp, OF h2]
  have e: "\<exists>S. mset S = mset [7 :: 64 word, 5] \<and> sorted (map sint S) \<and>
        aggregate quantile_append_int64_array quantile_int64_array [] (?lrow # ?lrows) =
        Inr (Some (map (\<lambda>q. S ! nat (nearest_rank (int (length S)) q)) ?qs))"
    by auto
  have ev: "aggregate quantile_append_double_array quantile_double_array [] (?row # ?rows) =
      Inr (Some [Finite 10, Finite 20, Finite 30])" by code_simp
  from q ev a b e show ?thesis by (intro conjI)
qed

subsection \<open>Order of arrival\<close>

lemma sort_map_same_mset:
  assumes "mset xs = mset ys"
  shows "sort (map key xs) = sort (map key ys)"
proof -
  have "mset (sort (map key ys)) = mset (map key xs)" using assms by (metis mset_map mset_sort)
  then show ?thesis by (simp add: properties_for_sort)
qed

lemma qsort_keys_same_mset:
  assumes "mset xs = mset ys"
    and "\<forall>x \<in> set xs. \<forall>y \<in> set xs. (cmp x y \<le> 0) = ((key x :: 'k :: linorder) \<le> key y)"
  shows "map key (qsort cmp xs) = map key (qsort cmp ys)"
proof -
  have "set ys = set xs" using assms(1) by (metis set_mset_mset)
  with assms(2) have "\<forall>x \<in> set ys. \<forall>y \<in> set ys. (cmp x y \<le> 0) = (key x \<le> key y)" by simp
  then have "map key (qsort cmp ys) = sort (map key ys)" by (rule map_key_qsort)
  moreover have "map key (qsort cmp xs) = sort (map key xs)" using assms(2) by (rule map_key_qsort)
  ultimately show ?thesis using sort_map_same_mset[OF assms(1)] by simp
qed

lemma dkey_eq_cases:
  assumes "dkey a = dkey b" "a \<noteq> NaN" "b \<noteq> NaN"
  shows "a = b \<or> is_zero a \<and> is_zero b"
  using assms by (cases a; cases b) (auto simp: is_zero_def)

lemma rank_values_rel:
  assumes "length S2 = length S1" "\<forall>i < length S1. R (S1 ! i) (S2 ! i)"
    and "0 \<le> idx" "idx < int (length S1)"
    and "\<forall>q \<in> set qs. q \<noteq> NaN \<longrightarrow>
           0 \<le> nearest_rank (int (length S1)) q \<and> nearest_rank (int (length S1)) q < int (length S1)"
  shows "list_all2 R (rank_values S1 idx qs) (rank_values S2 idx qs)"
  using assms(3-)
proof (induction qs arbitrary: idx)
  case Nil
  then show ?case by simp
next
  case (Cons q qs)
  define j where "j = (if q = NaN then idx else nearest_rank (int (length S1)) q)"
  have j: "0 \<le> j" "j < int (length S1)" using Cons.prems by (auto simp: j_def)
  then have "nat j < length S1" by simp
  with assms(2) have "R (S1 ! nat j) (S2 ! nat j)" by blast
  moreover have "list_all2 R (rank_values S1 j qs) (rank_values S2 j qs)"
    using Cons.IH[OF j] Cons.prems(3) by simp
  ultimately show ?case by (auto simp: Let_def j_def assms(1))
qed

text \<open>
  Claim C6 says that the result of the final function depends on the values and on the
  probabilities only, not on the order in which the values arrived. For doubles the
  comparator does not tell the two zeros apart, and \<^verbatim>\<open>qsort\<close> leaves them in their order
  of arrival: the minimum of the values \<open>0.0\<close> and \<open>-0.0\<close> is the one that arrived first.
  And a NaN, which compares equal to everything, stays where it arrived: the minimum of
  NaN and 2 is the one that arrived first.
\<close>

theorem arrival_order_changes_result:
  "aggregate quantile_append_double_array quantile_double_array []
     [(Some (Finite 0), float8_array [Finite 0]), (Some NegZero, float8_array [Finite 0])] =
     Inr (Some [Finite 0]) \<and>
   aggregate quantile_append_double_array quantile_double_array []
     [(Some NegZero, float8_array [Finite 0]), (Some (Finite 0), float8_array [Finite 0])] =
     Inr (Some [NegZero]) \<and>
   aggregate quantile_append_double_array quantile_double_array []
     [(Some NaN, float8_array [Finite 0]), (Some (Finite 2), float8_array [Finite 0])] =
     Inr (Some [NaN]) \<and>
   aggregate quantile_append_double_array quantile_double_array []
     [(Some (Finite 2), float8_array [Finite 0]), (Some NaN, float8_array [Finite 0])] =
     Inr (Some [Finite 2])"
  by code_simp

text \<open>
  Claim C6, amended. Take two orders of arrival of the same values, at least one and no
  more than the allocator can hold, and the same request of probabilities. The results of
  \<^verbatim>\<open>quantile_int32_array\<close> and of \<^verbatim>\<open>quantile_int64_array\<close> are identical. When no value is a
  NaN, the results of \<^verbatim>\<open>quantile_double_array\<close> have the same length and are identical
  position by position, except that where one has a zero the other may have the zero of
  the other sign.
\<close>

theorem finalize_order_independent:
  "AllocSizeIsValid (int (length qs) * 8) \<and> list_all is_double qs \<longrightarrow>
       (mset (present (row1 # rows1)) = mset (present (row2 # rows2)) \<and>
       present (row1 # rows1) \<noteq> [] \<and> NaN \<notin> set (present (row1 # rows1)) \<and>
       int (length (present (row1 # rows1))) \<le> max_capacity 8 \<and>
       snd row1 = float8_array qs \<and> snd row2 = float8_array qs \<longrightarrow>
        (\<exists>r1 r2.
           aggregate quantile_append_double_array quantile_double_array h (row1 # rows1) =
             Inr (Some r1) \<and>
           aggregate quantile_append_double_array quantile_double_array h (row2 # rows2) =
             Inr (Some r2) \<and>
           length r1 = length qs \<and> list_all2 (\<lambda>a b. a = b \<or> is_zero a \<and> is_zero b) r1 r2)) \<and>
       (mset (present (irow1 # irows1)) = mset (present (irow2 # irows2)) \<and>
       present (irow1 # irows1) \<noteq> [] \<and>
       int (length (present (irow1 # irows1))) \<le> max_capacity 4 \<and>
       snd irow1 = float8_array qs \<and> snd irow2 = float8_array qs \<longrightarrow>
        (\<exists>r. length r = length qs \<and>
           aggregate quantile_append_int32_array quantile_int32_array h32 (irow1 # irows1) = Inr (Some r) \<and>
           aggregate quantile_append_int32_array quantile_int32_array h32 (irow2 # irows2) = Inr (Some r))) \<and>
       (mset (present (lrow1 # lrows1)) = mset (present (lrow2 # lrows2)) \<and>
       present (lrow1 # lrows1) \<noteq> [] \<and>
       int (length (present (lrow1 # lrows1))) \<le> max_capacity 8 \<and>
       snd lrow1 = float8_array qs \<and> snd lrow2 = float8_array qs \<longrightarrow>
        (\<exists>r. length r = length qs \<and>
           aggregate quantile_append_int64_array quantile_int64_array h64 (lrow1 # lrows1) = Inr (Some r) \<and>
           aggregate quantile_append_int64_array quantile_int64_array h64 (lrow2 # lrows2) = Inr (Some r)))"
proof
  assume "AllocSizeIsValid (int (length qs) * 8) \<and> list_all is_double qs"
  then have va: "AllocSizeIsValid (int (length qs) * 8)"
    and okd: "\<forall>q \<in> set qs. is_double q" by (simp_all add: list_all_iff)
  have c0: "mset (present (row1 # rows1)) = mset (present (row2 # rows2)) \<and>
       present (row1 # rows1) \<noteq> [] \<and> NaN \<notin> set (present (row1 # rows1)) \<and>
       int (length (present (row1 # rows1))) \<le> max_capacity 8 \<and>
       snd row1 = float8_array qs \<and> snd row2 = float8_array qs \<longrightarrow>
        (\<exists>r1 r2.
           aggregate quantile_append_double_array quantile_double_array h (row1 # rows1) =
             Inr (Some r1) \<and>
           aggregate quantile_append_double_array quantile_double_array h (row2 # rows2) =
             Inr (Some r2) \<and>
           length r1 = length qs \<and> list_all2 (\<lambda>a b. a = b \<or> is_zero a \<and> is_zero b) r1 r2)"
  proof
    assume as: "mset (present (row1 # rows1)) = mset (present (row2 # rows2)) \<and>
       present (row1 # rows1) \<noteq> [] \<and> NaN \<notin> set (present (row1 # rows1)) \<and>
       int (length (present (row1 # rows1))) \<le> max_capacity 8 \<and>
       snd row1 = float8_array qs \<and> snd row2 = float8_array qs"
    define v1 where "v1 = present (row1 # rows1)"
    define v2 where "v2 = present (row2 # rows2)"
    define S1 where "S1 = qsort double_comparator v1"
    define S2 where "S2 = qsort double_comparator v2"
    from as have ms: "mset v1 = mset v2" and ne1: "present (row1 # rows1) \<noteq> []"
      and nn1: "NaN \<notin> set v1" and cap1: "int (length (present (row1 # rows1))) \<le> max_capacity 8"
      and rq1: "snd row1 = float8_array qs" and rq2: "snd row2 = float8_array qs"
      by (simp_all add: v1_def v2_def)
    have sz: "length v2 = length v1" using ms by (metis size_mset)
    have st: "set v2 = set v1" using ms by (metis set_mset_mset)
    have ne2: "present (row2 # rows2) \<noteq> []" using ne1 sz by (auto simp: v1_def v2_def)
    have cap2: "int (length (present (row2 # rows2))) \<le> max_capacity 8"
      using cap1 sz by (simp add: v1_def v2_def)
    have nn2: "NaN \<notin> set v2" using nn1 st by simp
    have a1: "aggregate quantile_append_double_array quantile_double_array h (row1 # rows1) =
        Inr (Some (rank_values S1 0 qs))"
      using aggregate_array_values[OF elsize_8 elsize_8_le cap1 rq1 va okd ne1,
          of "''quantile_append_double_array''" "''quantile_double_array''" double_comparator h]
      by (simp add: quantile_append_double_array_def quantile_double_array_def S1_def v1_def)
    have a2: "aggregate quantile_append_double_array quantile_double_array h (row2 # rows2) =
        Inr (Some (rank_values S2 0 qs))"
      using aggregate_array_values[OF elsize_8 elsize_8_le cap2 rq2 va okd ne2,
          of "''quantile_append_double_array''" "''quantile_double_array''" double_comparator h]
      by (simp add: quantile_append_double_array_def quantile_double_array_def S2_def v2_def)
    have key: "\<forall>x \<in> set v1. \<forall>y \<in> set v1. (double_comparator x y \<le> 0) = (dkey x \<le> dkey y)"
      using nn1 double_comparator_key by metis
    have keys: "map dkey S1 = map dkey S2"
      unfolding S1_def S2_def using ms key by (rule qsort_keys_same_mset)
    have l1: "length S1 = length v1" and l2: "length S2 = length S1"
      using sz by (simp_all add: S1_def S2_def length_qsort)
    have n1: "1 \<le> int (length S1)" using ne1 l1 by (cases v1) (simp_all add: v1_def)
    have n2: "int (length S1) < 2 ^ 31" using max_capacity_8_bound[OF cap1] l1 by (simp add: v1_def)
    have pt: "\<forall>i < length S1. S1 ! i = S2 ! i \<or> is_zero (S1 ! i) \<and> is_zero (S2 ! i)"
    proof (intro allI impI)
      fix i assume i: "i < length S1"
      then have i2: "i < length S2" using l2 by simp
      have "map dkey S1 ! i = map dkey S2 ! i" using keys by simp
      then have k: "dkey (S1 ! i) = dkey (S2 ! i)" using i i2 by simp
      have "S1 ! i \<in> set v1" using i set_qsort[of double_comparator v1]
        unfolding S1_def by (metis nth_mem)
      then have a: "S1 ! i \<noteq> NaN" using nn1 by auto
      have "S2 ! i \<in> set v2" using i2 set_qsort[of double_comparator v2]
        unfolding S2_def by (metis nth_mem)
      then have b: "S2 ! i \<noteq> NaN" using nn2 by auto
      from dkey_eq_cases[OF k a b]
      show "S1 ! i = S2 ! i \<or> is_zero (S1 ! i) \<and> is_zero (S2 ! i)" .
    qed
    have rg: "\<forall>q \<in> set qs. q \<noteq> NaN \<longrightarrow>
        0 \<le> nearest_rank (int (length S1)) q \<and> nearest_rank (int (length S1)) q < int (length S1)"
      using nearest_rank_in_range[OF n1 n2] okd by blast
    have z: "(0::int) \<le> 0" "0 < int (length S1)" using n1 by (cases S1; simp)+
    have rel: "list_all2 (\<lambda>a b. a = b \<or> is_zero a \<and> is_zero b)
        (rank_values S1 0 qs) (rank_values S2 0 qs)"
      using l2 pt z rg by (rule rank_values_rel)
    from a1 a2 rel show "(\<exists>r1 r2.
           aggregate quantile_append_double_array quantile_double_array h (row1 # rows1) =
             Inr (Some r1) \<and>
           aggregate quantile_append_double_array quantile_double_array h (row2 # rows2) =
             Inr (Some r2) \<and>
           length r1 = length qs \<and> list_all2 (\<lambda>a b. a = b \<or> is_zero a \<and> is_zero b) r1 r2)"
      by (intro exI[of _ "rank_values S1 0 qs"] exI[of _ "rank_values S2 0 qs"]) simp
  qed
  have c1: "mset (present (irow1 # irows1)) = mset (present (irow2 # irows2)) \<and>
       present (irow1 # irows1) \<noteq> [] \<and>
       int (length (present (irow1 # irows1))) \<le> max_capacity 4 \<and>
       snd irow1 = float8_array qs \<and> snd irow2 = float8_array qs \<longrightarrow>
        (\<exists>r. length r = length qs \<and>
           aggregate quantile_append_int32_array quantile_int32_array h32 (irow1 # irows1) = Inr (Some r) \<and>
           aggregate quantile_append_int32_array quantile_int32_array h32 (irow2 # irows2) = Inr (Some r))"
  proof
    assume as: "mset (present (irow1 # irows1)) = mset (present (irow2 # irows2)) \<and>
       present (irow1 # irows1) \<noteq> [] \<and>
       int (length (present (irow1 # irows1))) \<le> max_capacity 4 \<and>
       snd irow1 = float8_array qs \<and> snd irow2 = float8_array qs"
    define v1 where "v1 = present (irow1 # irows1)"
    define v2 where "v2 = present (irow2 # irows2)"
    from as have ms: "mset v1 = mset v2" and ne1: "present (irow1 # irows1) \<noteq> []"
      and cap1: "int (length (present (irow1 # irows1))) \<le> max_capacity 4"
      and rq1: "snd irow1 = float8_array qs" and rq2: "snd irow2 = float8_array qs"
      by (simp_all add: v1_def v2_def)
    have sz: "length v2 = length v1" using ms by (metis size_mset)
    have ne2: "present (irow2 # irows2) \<noteq> []" using ne1 sz by (auto simp: v1_def v2_def)
    have cap2: "int (length (present (irow2 # irows2))) \<le> max_capacity 4"
      using cap1 sz by (simp add: v1_def v2_def)
    have a1: "aggregate quantile_append_int32_array quantile_int32_array h32 (irow1 # irows1) =
        Inr (Some (rank_values (qsort int32_comparator v1) 0 qs))"
      using aggregate_array_values[OF elsize_4 cap1 rq1 va okd ne1,
          of "''quantile_append_int32_array''" "''quantile_int32_array''" int32_comparator h32]
      by (simp add: quantile_append_int32_array_def quantile_int32_array_def v1_def)
    have a2: "aggregate quantile_append_int32_array quantile_int32_array h32 (irow2 # irows2) =
        Inr (Some (rank_values (qsort int32_comparator v2) 0 qs))"
      using aggregate_array_values[OF elsize_4 cap2 rq2 va okd ne2,
          of "''quantile_append_int32_array''" "''quantile_int32_array''" int32_comparator h32]
      by (simp add: quantile_append_int32_array_def quantile_int32_array_def v2_def)
    have "\<forall>x \<in> set v1. \<forall>y \<in> set v1. (int32_comparator x y \<le> 0) = (sint x \<le> sint y)"
      by (simp add: int32_comparator_key)
    with ms have "map sint (qsort int32_comparator v1) = map sint (qsort int32_comparator v2)"
      by (rule qsort_keys_same_mset)
    then have "qsort int32_comparator v1 = qsort int32_comparator v2"
      by (simp add: inj_map_eq_map)
    with a1 a2 show "(\<exists>r. length r = length qs \<and>
           aggregate quantile_append_int32_array quantile_int32_array h32 (irow1 # irows1) = Inr (Some r) \<and>
           aggregate quantile_append_int32_array quantile_int32_array h32 (irow2 # irows2) = Inr (Some r))"
      by (intro exI[of _ "rank_values (qsort int32_comparator v1) 0 qs"]) simp
  qed
  have c2: "mset (present (lrow1 # lrows1)) = mset (present (lrow2 # lrows2)) \<and>
       present (lrow1 # lrows1) \<noteq> [] \<and>
       int (length (present (lrow1 # lrows1))) \<le> max_capacity 8 \<and>
       snd lrow1 = float8_array qs \<and> snd lrow2 = float8_array qs \<longrightarrow>
        (\<exists>r. length r = length qs \<and>
           aggregate quantile_append_int64_array quantile_int64_array h64 (lrow1 # lrows1) = Inr (Some r) \<and>
           aggregate quantile_append_int64_array quantile_int64_array h64 (lrow2 # lrows2) = Inr (Some r))"
  proof
    assume as: "mset (present (lrow1 # lrows1)) = mset (present (lrow2 # lrows2)) \<and>
       present (lrow1 # lrows1) \<noteq> [] \<and>
       int (length (present (lrow1 # lrows1))) \<le> max_capacity 8 \<and>
       snd lrow1 = float8_array qs \<and> snd lrow2 = float8_array qs"
    define v1 where "v1 = present (lrow1 # lrows1)"
    define v2 where "v2 = present (lrow2 # lrows2)"
    from as have ms: "mset v1 = mset v2" and ne1: "present (lrow1 # lrows1) \<noteq> []"
      and cap1: "int (length (present (lrow1 # lrows1))) \<le> max_capacity 8"
      and rq1: "snd lrow1 = float8_array qs" and rq2: "snd lrow2 = float8_array qs"
      by (simp_all add: v1_def v2_def)
    have sz: "length v2 = length v1" using ms by (metis size_mset)
    have ne2: "present (lrow2 # lrows2) \<noteq> []" using ne1 sz by (auto simp: v1_def v2_def)
    have cap2: "int (length (present (lrow2 # lrows2))) \<le> max_capacity 8"
      using cap1 sz by (simp add: v1_def v2_def)
    have a1: "aggregate quantile_append_int64_array quantile_int64_array h64 (lrow1 # lrows1) =
        Inr (Some (rank_values (qsort int64_comparator v1) 0 qs))"
      using aggregate_array_values[OF elsize_8 elsize_8_le cap1 rq1 va okd ne1,
          of "''quantile_append_int64_array''" "''quantile_int64_array''" int64_comparator h64]
      by (simp add: quantile_append_int64_array_def quantile_int64_array_def v1_def)
    have a2: "aggregate quantile_append_int64_array quantile_int64_array h64 (lrow2 # lrows2) =
        Inr (Some (rank_values (qsort int64_comparator v2) 0 qs))"
      using aggregate_array_values[OF elsize_8 elsize_8_le cap2 rq2 va okd ne2,
          of "''quantile_append_int64_array''" "''quantile_int64_array''" int64_comparator h64]
      by (simp add: quantile_append_int64_array_def quantile_int64_array_def v2_def)
    have "\<forall>x \<in> set v1. \<forall>y \<in> set v1. (int64_comparator x y \<le> 0) = (sint x \<le> sint y)"
      by (simp add: int64_comparator_key)
    with ms have "map sint (qsort int64_comparator v1) = map sint (qsort int64_comparator v2)"
      by (rule qsort_keys_same_mset)
    then have "qsort int64_comparator v1 = qsort int64_comparator v2"
      by (simp add: inj_map_eq_map)
    with a1 a2 show "(\<exists>r. length r = length qs \<and>
           aggregate quantile_append_int64_array quantile_int64_array h64 (lrow1 # lrows1) = Inr (Some r) \<and>
           aggregate quantile_append_int64_array quantile_int64_array h64 (lrow2 # lrows2) = Inr (Some r))"
      by (intro exI[of _ "rank_values (qsort int64_comparator v1) 0 qs"]) simp
  qed
  from c0 c1 c2 show "(mset (present (row1 # rows1)) = mset (present (row2 # rows2)) \<and>
       present (row1 # rows1) \<noteq> [] \<and> NaN \<notin> set (present (row1 # rows1)) \<and>
       int (length (present (row1 # rows1))) \<le> max_capacity 8 \<and>
       snd row1 = float8_array qs \<and> snd row2 = float8_array qs \<longrightarrow>
        (\<exists>r1 r2.
           aggregate quantile_append_double_array quantile_double_array h (row1 # rows1) =
             Inr (Some r1) \<and>
           aggregate quantile_append_double_array quantile_double_array h (row2 # rows2) =
             Inr (Some r2) \<and>
           length r1 = length qs \<and> list_all2 (\<lambda>a b. a = b \<or> is_zero a \<and> is_zero b) r1 r2)) \<and>
       (mset (present (irow1 # irows1)) = mset (present (irow2 # irows2)) \<and>
       present (irow1 # irows1) \<noteq> [] \<and>
       int (length (present (irow1 # irows1))) \<le> max_capacity 4 \<and>
       snd irow1 = float8_array qs \<and> snd irow2 = float8_array qs \<longrightarrow>
        (\<exists>r. length r = length qs \<and>
           aggregate quantile_append_int32_array quantile_int32_array h32 (irow1 # irows1) = Inr (Some r) \<and>
           aggregate quantile_append_int32_array quantile_int32_array h32 (irow2 # irows2) = Inr (Some r))) \<and>
       (mset (present (lrow1 # lrows1)) = mset (present (lrow2 # lrows2)) \<and>
       present (lrow1 # lrows1) \<noteq> [] \<and>
       int (length (present (lrow1 # lrows1))) \<le> max_capacity 8 \<and>
       snd lrow1 = float8_array qs \<and> snd lrow2 = float8_array qs \<longrightarrow>
        (\<exists>r. length r = length qs \<and>
           aggregate quantile_append_int64_array quantile_int64_array h64 (lrow1 # lrows1) = Inr (Some r) \<and>
           aggregate quantile_append_int64_array quantile_int64_array h64 (lrow2 # lrows2) = Inr (Some r)))" by (intro conjI)
qed

theorem finalize_order_independent_witness:
  "list_all is_double [Finite (1 / 4), Finite (1 / 2), Finite (3 / 4)] \<and>
   (\<exists>r1 r2.
      aggregate quantile_append_double_array quantile_double_array []
     [(Some (Finite 40), float8_array [Finite (1 / 4), Finite (1 / 2), Finite (3 / 4)]),
      (Some (Finite 20), float8_array [Finite (1 / 4), Finite (1 / 2), Finite (3 / 4)]),
      (Some (NegZero), float8_array [Finite (1 / 4), Finite (1 / 2), Finite (3 / 4)]),
      (Some (Finite 10), float8_array [Finite (1 / 4), Finite (1 / 2), Finite (3 / 4)])] =
        Inr (Some r1) \<and>
      aggregate quantile_append_double_array quantile_double_array []
     [(Some (Finite 10), float8_array [Finite (1 / 4), Finite (1 / 2), Finite (3 / 4)]),
      (Some (Finite 20), float8_array [Finite (1 / 4), Finite (1 / 2), Finite (3 / 4)]),
      (Some (Finite 40), float8_array [Finite (1 / 4), Finite (1 / 2), Finite (3 / 4)]),
      (Some (NegZero), float8_array [Finite (1 / 4), Finite (1 / 2), Finite (3 / 4)])] =
        Inr (Some r2) \<and>
      length r1 = 3 \<and> list_all2 (\<lambda>a b. a = b \<or> is_zero a \<and> is_zero b) r1 r2) \<and>
   (\<exists>r. length r = 3 \<and>
      aggregate quantile_append_int32_array quantile_int32_array []
     [(Some (3 :: 32 word), float8_array [Finite (1 / 4), Finite (1 / 2), Finite (3 / 4)]),
      (Some (- 1), float8_array [Finite (1 / 4), Finite (1 / 2), Finite (3 / 4)]),
      (Some (2), float8_array [Finite (1 / 4), Finite (1 / 2), Finite (3 / 4)])] =
        Inr (Some r) \<and>
      aggregate quantile_append_int32_array quantile_int32_array []
     [(Some (2 :: 32 word), float8_array [Finite (1 / 4), Finite (1 / 2), Finite (3 / 4)]),
      (Some (3), float8_array [Finite (1 / 4), Finite (1 / 2), Finite (3 / 4)]),
      (Some (- 1), float8_array [Finite (1 / 4), Finite (1 / 2), Finite (3 / 4)])] =
        Inr (Some r)) \<and>
   (\<exists>r. length r = 3 \<and>
      aggregate quantile_append_int64_array quantile_int64_array []
     [(Some (7 :: 64 word), float8_array [Finite (1 / 4), Finite (1 / 2), Finite (3 / 4)]),
      (Some (5), float8_array [Finite (1 / 4), Finite (1 / 2), Finite (3 / 4)])] =
        Inr (Some r) \<and>
      aggregate quantile_append_int64_array quantile_int64_array []
     [(Some (5 :: 64 word), float8_array [Finite (1 / 4), Finite (1 / 2), Finite (3 / 4)]),
      (Some (7), float8_array [Finite (1 / 4), Finite (1 / 2), Finite (3 / 4)])] =
        Inr (Some r))"
proof -
  let ?qs = "[Finite (1 / 4), Finite (1 / 2), Finite (3 / 4)]"
  let ?a = "float8_array ?qs"
  let ?row1 = "(Some (Finite 40), ?a)"
  let ?rows1 = "[(Some (Finite 20), ?a), (Some (NegZero), ?a), (Some (Finite 10), ?a)]"
  let ?row2 = "(Some (Finite 10), ?a)"
  let ?rows2 = "[(Some (Finite 20), ?a), (Some (Finite 40), ?a), (Some (NegZero), ?a)]"
  let ?irow1 = "(Some (3 :: 32 word), ?a)"
  let ?irows1 = "[(Some (- 1), ?a), (Some (2), ?a)]"
  let ?irow2 = "(Some (2 :: 32 word), ?a)"
  let ?irows2 = "[(Some (3), ?a), (Some (- 1), ?a)]"
  let ?lrow1 = "(Some (7 :: 64 word), ?a)"
  let ?lrows1 = "[(Some (5), ?a)]"
  let ?lrow2 = "(Some (5 :: 64 word), ?a)"
  let ?lrows2 = "[(Some (7), ?a)]"
  have q: "list_all is_double ?qs" by code_simp
  have qh: "AllocSizeIsValid (int (length ?qs) * 8) \<and> list_all is_double ?qs"
    using q by (simp add: AllocSizeIsValid_def MaxAllocSize_def)
  have h0: "mset (present (?row1 # ?rows1)) = mset (present (?row2 # ?rows2)) \<and>
       present (?row1 # ?rows1) \<noteq> [] \<and> NaN \<notin> set (present (?row1 # ?rows1)) \<and>
       int (length (present (?row1 # ?rows1))) \<le> max_capacity 8 \<and>
       snd ?row1 = float8_array ?qs \<and> snd ?row2 = float8_array ?qs"
    by (simp add: max_capacity_def SLICE_SIZE_def MaxAllocSize_def)
  have h1: "mset (present (?irow1 # ?irows1)) = mset (present (?irow2 # ?irows2)) \<and>
       present (?irow1 # ?irows1) \<noteq> [] \<and>
       int (length (present (?irow1 # ?irows1))) \<le> max_capacity 4 \<and>
       snd ?irow1 = float8_array ?qs \<and> snd ?irow2 = float8_array ?qs"
    by (simp add: max_capacity_def SLICE_SIZE_def MaxAllocSize_def)
  have h2: "mset (present (?lrow1 # ?lrows1)) = mset (present (?lrow2 # ?lrows2)) \<and>
       present (?lrow1 # ?lrows1) \<noteq> [] \<and>
       int (length (present (?lrow1 # ?lrows1))) \<le> max_capacity 8 \<and>
       snd ?lrow1 = float8_array ?qs \<and> snd ?lrow2 = float8_array ?qs"
    by (simp add: max_capacity_def SLICE_SIZE_def MaxAllocSize_def)
  note T = finalize_order_independent[where qs = ?qs
      and ?row1.0 = ?row1 and ?rows1.0 = ?rows1 and ?row2.0 = ?row2 and ?rows2.0 = ?rows2
      and ?irow1.0 = ?irow1 and ?irows1.0 = ?irows1 and ?irow2.0 = ?irow2 and ?irows2.0 = ?irows2
      and ?lrow1.0 = ?lrow1 and ?lrows1.0 = ?lrows1 and ?lrow2.0 = ?lrow2 and ?lrows2.0 = ?lrows2
      and h = "[]" and ?h32.0 = "[]" and ?h64.0 = "[]", THEN mp, OF qh]
  have l: "length ?qs = 3" by simp
  have a: "\<exists>r1 r2.
      aggregate quantile_append_double_array quantile_double_array [] (?row1 # ?rows1) = Inr (Some r1) \<and>
      aggregate quantile_append_double_array quantile_double_array [] (?row2 # ?rows2) = Inr (Some r2) \<and>
      length r1 = 3 \<and> list_all2 (\<lambda>a b. a = b \<or> is_zero a \<and> is_zero b) r1 r2"
    using T[THEN conjunct1, THEN mp, OF h0] unfolding l .
  have b: "\<exists>r. length r = 3 \<and>
      aggregate quantile_append_int32_array quantile_int32_array [] (?irow1 # ?irows1) = Inr (Some r) \<and>
      aggregate quantile_append_int32_array quantile_int32_array [] (?irow2 # ?irows2) = Inr (Some r)"
    using T[THEN conjunct2, THEN conjunct1, THEN mp, OF h1] unfolding l .
  have e: "\<exists>r. length r = 3 \<and>
      aggregate quantile_append_int64_array quantile_int64_array [] (?lrow1 # ?lrows1) = Inr (Some r) \<and>
      aggregate quantile_append_int64_array quantile_int64_array [] (?lrow2 # ?lrows2) = Inr (Some r)"
    using T[THEN conjunct2, THEN conjunct2, THEN mp, OF h2] unfolding l .
  from q a b e show ?thesis by (intro conjI)
qed

end
